theory Spec2Isabelle
  imports Main
begin

section \<open>Terms and the two reserved markers\<close>

text \<open>
  An \<open>aterm\<close> is either the default-constructed (null) term \<open>aterm()\<close>, an application
  \<open>aterm_appl(function_symbol(name, arity), args)\<close> or an integer term \<open>aterm_int(n)\<close>.
\<close>

datatype aterm = Null | Appl string "aterm list" | AInt int

definition ESCAPE_SEQUENCE :: aterm where
  "ESCAPE_SEQUENCE = Appl ''ESC'' [Appl ''NEW'' []]"

definition NO_ATERM :: aterm where
  "NO_ATERM = Appl ''ESC'' [Appl ''NIL'' []]"

section \<open>Nodes, the store and the tree\<close>

text \<open>
  \<open>struct HFnode\<close>. A pointer is \<open>nat option\<close>, \<open>None\<close> being \<open>NULL\<close>. The fields
  \<open>next\<close>, \<open>previous\<close> and \<open>block\<close> belong to the block list and are represented by the
  sibling order \<open>blockList\<close> of the tree.
\<close>

record HFnode =
  high :: "nat option"
  low :: "nat option"
  parent :: "nat option"
  frequency :: nat
  nterm :: aterm

text \<open>
  \<open>HFtree\<close> together with the store its nodes live in: \<open>heap\<close> maps an address to the node
  stored there and \<open>nalloc\<close> is the address the next \<open>new struct HFnode\<close> returns.
  \<open>terms\<close> is the hash table: a term is absent, or present with a possibly null pointer.
\<close>

record HFtree =
  heap :: "nat \<Rightarrow> HFnode"
  nalloc :: nat
  codes :: nat
  top :: nat
  terms :: "aterm \<Rightarrow> nat option option"
  blockList :: "nat list"

definition freq :: "HFtree \<Rightarrow> nat \<Rightarrow> nat" where
  "freq t n = frequency (heap t n)"

section \<open>The wire\<close>

text \<open>
  Modelled from the spec: the bit stream and the literal coder (\<open>BSreadBit\<close>, \<open>BSwriteBit\<close>,
  \<open>LZwriteATerm\<close>, \<open>LZreadATerm\<close>, \<open>LZwriteInt\<close>, \<open>LZreadInt\<close>) are not part of the
  sources. The spec treats the literal coder as a black box whose output is interleaved
  between the Huffman code words and read back in the order written, so the stream is a
  list of items: a single bit, or one opaque literal. Reading fails on an exhausted
  stream and when the item at the front is of the other kind.
\<close>

datatype item = Bit bool | LitTerm aterm | LitInt int

type_synonym BitStream = "item list"

definition BSwriteBit :: "BitStream \<Rightarrow> bool \<Rightarrow> BitStream" where
  "BSwriteBit bs b = bs @ [Bit b]"

fun BSreadBit :: "BitStream \<Rightarrow> (bool \<times> BitStream) option" where
  "BSreadBit (Bit b # bs) = Some (b, bs)"
| "BSreadBit _ = None"

definition LZwriteATerm :: "BitStream \<Rightarrow> aterm \<Rightarrow> BitStream" where
  "LZwriteATerm bs t = bs @ [LitTerm t]"

fun LZreadATerm :: "BitStream \<Rightarrow> (aterm \<times> BitStream) option" where
  "LZreadATerm (LitTerm t # bs) = Some (t, bs)"
| "LZreadATerm _ = None"

definition LZwriteInt :: "BitStream \<Rightarrow> int \<Rightarrow> BitStream" where
  "LZwriteInt bs i = bs @ [LitInt i]"

fun LZreadInt :: "BitStream \<Rightarrow> (int \<times> BitStream) option" where
  "LZreadInt (LitInt i # bs) = Some (i, bs)"
| "LZreadInt _ = None"

section \<open>The symbol table\<close>

text \<open>
  Modelled from the spec: the hash table (\<open>HTmember\<close>, \<open>HTgetPtr\<close>, \<open>HTsetPtr\<close>,
  \<open>HTinsert\<close>) is not part of the sources. It maps a symbol to the leaf that represents it;
  \<open>set\<close> overwrites. The index \<open>HTmember\<close> hands out is the term itself.
\<close>

definition HTmember :: "(aterm \<Rightarrow> nat option option) \<Rightarrow> aterm \<Rightarrow> bool" where
  "HTmember tab t = (tab t \<noteq> None)"

definition HTgetPtr :: "(aterm \<Rightarrow> nat option option) \<Rightarrow> aterm \<Rightarrow> nat option" where
  "HTgetPtr tab t = (case tab t of None \<Rightarrow> None | Some p \<Rightarrow> p)"

definition HTsetPtr :: "(aterm \<Rightarrow> nat option option) \<Rightarrow> aterm \<Rightarrow> nat \<Rightarrow> (aterm \<Rightarrow> nat option option)" where
  "HTsetPtr tab t n = tab(t := Some (Some n))"

definition HTinsert :: "(aterm \<Rightarrow> nat option option) \<Rightarrow> aterm \<Rightarrow> nat \<Rightarrow> (aterm \<Rightarrow> nat option option)" where
  "HTinsert tab t n = tab(t := Some (Some n))"

section \<open>The sibling index\<close>

text \<open>
  Modelled from the spec: the block list (\<open>BLinit\<close>, \<open>BLinsert\<close>, \<open>BLswap\<close>, \<open>Blast\<close>,
  \<open>Bprevious\<close>) is not part of the sources. The spec describes it as a total order on the
  nodes of the tree that the index keeps in non-decreasing weight order, the nodes of equal
  weight forming a contiguous block:
  \<^item> a new node is placed immediately after the escape leaf, which is the first node of
    the order (the first node registered opens the order);
  \<^item> the leader of a node's block is the last node of the maximal contiguous run of
    nodes whose weight equals the node's;
  \<^item> \<open>BLswap\<close> exchanges the positions of the two nodes (none when the second is \<open>NULL\<close>).
    It is also where the weight of the first node goes up by one (\<open>HFupdate\<close> increments
    nowhere else): the node leaves its block and heads the block of the next weight,
    right behind the nodes of its old weight, which keeps the order non-decreasing.
\<close>

definition BLinit :: "nat list" where
  "BLinit = []"

fun BLinsert :: "nat list \<Rightarrow> nat \<Rightarrow> nat list" where
  "BLinsert [] n = [n]"
| "BLinsert (e # rest) n = e # n # rest"

fun run_last :: "(nat \<Rightarrow> nat) \<Rightarrow> nat \<Rightarrow> nat list \<Rightarrow> nat" where
  "run_last w x [] = x"
| "run_last w x (y # ys) = (if w y = w x then run_last w y ys else x)"

fun Blast :: "(nat \<Rightarrow> nat) \<Rightarrow> nat list \<Rightarrow> nat \<Rightarrow> nat option" where
  "Blast w [] n = None"
| "Blast w (x # xs) n = (if x = n then Some (run_last w x xs) else Blast w xs n)"

fun Bprevious :: "nat list \<Rightarrow> nat \<Rightarrow> nat option" where
  "Bprevious [] n = None"
| "Bprevious [x] n = None"
| "Bprevious (x # y # ys) n = (if y = n then Some x else Bprevious (y # ys) n)"

definition exchange :: "nat \<Rightarrow> nat \<Rightarrow> nat \<Rightarrow> nat" where
  "exchange a b x = (if x = a then b else if x = b then a else x)"

definition BLswap :: "HFtree \<Rightarrow> nat \<Rightarrow> nat option \<Rightarrow> HFtree" where
  "BLswap t node1 node2 =
     (let l1 = (case node2 of None \<Rightarrow> blockList t | Some n2 \<Rightarrow> map (exchange node1 n2) (blockList t));
          k = freq t node1;
          rest = filter (\<lambda>x. x \<noteq> node1) l1;
          l2 = takeWhile (\<lambda>x. freq t x \<le> k) rest @ [node1] @ dropWhile (\<lambda>x. freq t x \<le> k) rest
      in t\<lparr>heap := (heap t)(node1 := (heap t node1)\<lparr>frequency := Suc k\<rparr>), blockList := l2\<rparr>)"

section \<open>The adaptive tree (huffman.cpp)\<close>

definition empty_node :: HFnode where
  "empty_node = \<lparr>high = None, low = None, parent = None, frequency = 0, nterm = Null\<rparr>"

text \<open>\<open>HFinit\<close>: the root is allocated first (address 0), then the escape leaf (address 1).\<close>

definition HFinit :: "(aterm \<Rightarrow> nat option option) \<Rightarrow> HFtree" where
  "HFinit tab =
     \<lparr>heap = (\<lambda>_. empty_node)
         (0 := \<lparr>high = None, low = Some 1, parent = None, frequency = 0, nterm = Null\<rparr>,
          1 := \<lparr>high = None, low = None, parent = Some 0, frequency = 0, nterm = ESCAPE_SEQUENCE\<rparr>),
      nalloc = 2, codes = 0, top = 1, terms = tab,
      blockList = BLinsert (BLinsert BLinit 1) 0\<rparr>"

text \<open>
  \<open>HFsuccessor\<close>. The outer \<open>None\<close> is the failure of \<open>current->block\<close> on a node that was
  never registered; \<open>Some None\<close> is the \<open>NULL\<close> the function returns.
\<close>

definition related :: "HFtree \<Rightarrow> nat \<Rightarrow> nat \<Rightarrow> bool" where
  "related t current n = (parent (heap t current) = Some n \<or> parent (heap t n) = Some current)"

definition HFsuccessor :: "HFtree \<Rightarrow> nat \<Rightarrow> nat option option" where
  "HFsuccessor t current =
     (case Blast (freq t) (blockList t) current of
        None \<Rightarrow> None
      | Some lastn \<Rightarrow>
          let prelast = Bprevious (blockList t) lastn in
          Some (if lastn = current then None
                else if Some current = prelast then
                  (if related t current lastn then None else Some lastn)
                else if parent (heap t current) = prelast
                        \<or> (case prelast of None \<Rightarrow> False
                            | Some p \<Rightarrow> parent (heap t p) = Some current) then
                  (if related t current lastn then None else Some lastn)
                else prelast))"

text \<open>
  \<open>near t c p\<close>: the pointer \<open>p\<close> is \<open>c\<close> itself, or what \<open>c->parent\<close> holds, or a node
  whose parent is \<open>c\<close>. These are the tests \<open>HFsuccessor\<close> makes on \<open>prelast\<close>.
\<close>

definition near :: "HFtree \<Rightarrow> nat \<Rightarrow> nat option \<Rightarrow> bool" where
  "near t c p = (p = Some c \<or> parent (heap t c) = p
                 \<or> (case p of None \<Rightarrow> False | Some q \<Rightarrow> parent (heap t q) = Some c))"

datatype slot = RootSlot | LowOf nat | HighOf nat

definition slot_of :: "HFtree \<Rightarrow> nat \<Rightarrow> slot option" where
  "slot_of t n =
     (if codes t = n then Some RootSlot
      else case parent (heap t n) of
             None \<Rightarrow> None
           | Some p \<Rightarrow> if low (heap t p) = Some n then Some (LowOf p) else Some (HighOf p))"

fun set_slot :: "HFtree \<Rightarrow> slot \<Rightarrow> nat \<Rightarrow> HFtree" where
  "set_slot t RootSlot n = t\<lparr>codes := n\<rparr>"
| "set_slot t (LowOf p) n = t\<lparr>heap := (heap t)(p := (heap t p)\<lparr>low := Some n\<rparr>)\<rparr>"
| "set_slot t (HighOf p) n = t\<lparr>heap := (heap t)(p := (heap t p)\<lparr>high := Some n\<rparr>)\<rparr>"

definition set_parent :: "HFtree \<Rightarrow> nat \<Rightarrow> nat option \<Rightarrow> HFtree" where
  "set_parent t n p = t\<lparr>heap := (heap t)(n := (heap t n)\<lparr>parent := p\<rparr>)\<rparr>"

definition HFswap :: "HFtree \<Rightarrow> nat \<Rightarrow> nat \<Rightarrow> HFtree option" where
  "HFswap t node1 node2 =
     (case slot_of t node1 of
        None \<Rightarrow> None
      | Some parent1Ptr \<Rightarrow>
          (case slot_of t node2 of
             None \<Rightarrow> None
           | Some parent2Ptr \<Rightarrow>
               let t1 = set_slot t parent1Ptr node2;
                   t2 = set_slot t1 parent2Ptr node1;
                   tmp = parent (heap t2 node2);
                   t3 = set_parent t2 node2 (parent (heap t2 node1))
               in Some (set_parent t3 node1 tmp)))"

partial_function (option) HFupdate :: "HFtree \<Rightarrow> nat option \<Rightarrow> HFtree option" where
  "HFupdate t current =
     (case current of
        None \<Rightarrow> Some t
      | Some c \<Rightarrow>
          (case HFsuccessor t c of
             None \<Rightarrow> None
           | Some None \<Rightarrow>
               (let t' = BLswap t c None in HFupdate t' (parent (heap t' c)))
           | Some (Some s) \<Rightarrow>
               (case HFswap (BLswap t c (Some s)) c s of
                  None \<Rightarrow> None
                | Some t' \<Rightarrow> HFupdate t' (parent (heap t' c)))))"

declare HFupdate.simps [code]

partial_function (option) HFwriteCode :: "BitStream \<Rightarrow> HFtree \<Rightarrow> nat \<Rightarrow> BitStream option" where
  "HFwriteCode fp t node =
     (case parent (heap t node) of
        None \<Rightarrow> Some fp
      | Some p \<Rightarrow>
          Option.bind (HFwriteCode fp t p)
            (\<lambda>fp'. Some (BSwriteBit fp' (high (heap t p) = Some node))))"

declare HFwriteCode.simps [code]

definition new_node :: "HFtree \<Rightarrow> HFnode \<Rightarrow> HFtree \<times> nat" where
  "new_node t nd = (t\<lparr>heap := (heap t)(nalloc t := nd), nalloc := Suc (nalloc t)\<rparr>, nalloc t)"

definition HTstore :: "HFtree \<Rightarrow> aterm \<Rightarrow> nat \<Rightarrow> HFtree" where
  "HTstore t trm n =
     (if HTmember (terms t) trm then t\<lparr>terms := HTsetPtr (terms t) trm n\<rparr>
      else t\<lparr>terms := HTinsert (terms t) trm n\<rparr>)"

definition HFadd :: "HFtree \<Rightarrow> aterm \<Rightarrow> (HFtree \<times> nat) option" where
  "HFadd t trm =
     (let tmp = top t in
      case parent (heap t tmp) of
        None \<Rightarrow> None
      | Some p \<Rightarrow>
          if high (heap t p) = None then
            (let (t1, newNode) = new_node t
                    \<lparr>high = None, low = None, parent = Some p, frequency = 0, nterm = trm\<rparr>;
                 t2 = t1\<lparr>heap := (heap t1)(p := (heap t1 p)\<lparr>high := Some newNode\<rparr>)\<rparr>;
                 t3 = t2\<lparr>blockList := BLinsert (blockList t2) newNode\<rparr>
             in Some (HTstore t3 trm newNode, newNode))
          else
            (let (t1, newNode) = new_node t
                    \<lparr>high = None, low = None, parent = Some p, frequency = freq t tmp, nterm = Null\<rparr>;
                 t2 = (if low (heap t1 p) = Some tmp
                       then t1\<lparr>heap := (heap t1)(p := (heap t1 p)\<lparr>low := Some newNode\<rparr>)\<rparr>
                       else t1\<lparr>heap := (heap t1)(p := (heap t1 p)\<lparr>high := Some newNode\<rparr>)\<rparr>);
                 t3 = t2\<lparr>heap := (heap t2)(newNode := (heap t2 newNode)\<lparr>low := Some tmp\<rparr>)\<rparr>;
                 t4 = set_parent t3 tmp (Some newNode);
                 (t5, leaf) = new_node t4
                    \<lparr>high = None, low = None, parent = Some newNode, frequency = 0, nterm = trm\<rparr>;
                 t6 = t5\<lparr>heap := (heap t5)(newNode := (heap t5 newNode)\<lparr>high := Some leaf\<rparr>)\<rparr>;
                 t7 = t6\<lparr>blockList := BLinsert (BLinsert (blockList t6) newNode) leaf\<rparr>
             in Some (HTstore t7 trm leaf, leaf)))"

definition is_leaf :: "HFtree \<Rightarrow> nat \<Rightarrow> bool" where
  "is_leaf t n = (high (heap t n) = None \<and> low (heap t n) = None)"

lemma BSreadBit_shorter [termination_simp]:
  "BSreadBit fp = Some (b, fp') \<Longrightarrow> length fp' < length fp"
  by (cases fp rule: BSreadBit.cases) auto

text \<open>
  \<open>HFdecodeATerm\<close>. The argument \<open>trm\<close> is what the caller's \<open>*term\<close> holds on entry; the
  result is the return value, the final \<open>*term\<close>, the rest of the stream and the tree.
  \<open>None\<close> stands for a run that does not return.
\<close>

function HFdecodeATerm_loop ::
  "BitStream \<Rightarrow> HFtree \<Rightarrow> aterm \<Rightarrow> nat option \<Rightarrow> (int \<times> aterm \<times> BitStream \<times> HFtree) option" where
  "HFdecodeATerm_loop fp t trm None = Some (1, trm, fp, t)"
| "HFdecodeATerm_loop fp t trm (Some current) =
     (if high (heap t current) = None \<and> low (heap t current) = None then
        (if nterm (heap t current) = ESCAPE_SEQUENCE then
           (case LZreadATerm fp of
              Some (trm', fp') \<Rightarrow>
                (case HFadd t trm' of
                   None \<Rightarrow> None
                 | Some (t1, cur) \<Rightarrow>
                     (case HFupdate t1 (Some cur) of
                        None \<Rightarrow> None
                      | Some t2 \<Rightarrow>
                          if trm' = NO_ATERM then Some (0, Null, fp', t2)
                          else Some (1, trm', fp', t2)))
            | None \<Rightarrow> Some (0, ESCAPE_SEQUENCE, fp, t))
         else
           (case HFupdate t (Some current) of
              None \<Rightarrow> None
            | Some t2 \<Rightarrow>
                if nterm (heap t current) = NO_ATERM then Some (0, Null, fp, t2)
                else Some (1, nterm (heap t current), fp, t2)))
      else
        (case BSreadBit fp of
           Some (b, fp') \<Rightarrow>
             HFdecodeATerm_loop fp' t trm
               (if \<not> b then low (heap t current) else high (heap t current))
         | None \<Rightarrow> Some (0, trm, fp, t)))"
  by pat_completeness auto
termination
  by (relation "measure (\<lambda>(fp, t, trm, cur). length fp)") (auto simp: BSreadBit_shorter)

definition HFdecodeATerm ::
  "BitStream \<Rightarrow> HFtree \<Rightarrow> aterm \<Rightarrow> (int \<times> aterm \<times> BitStream \<times> HFtree) option" where
  "HFdecodeATerm fp t trm = HFdecodeATerm_loop fp t trm (Some (codes t))"

text \<open>
  \<open>((aterm_int)term).value()\<close>: the value of an integer term; on any other term the cast
  has no defined result.
\<close>

fun aterm_int_value :: "aterm \<Rightarrow> int option" where
  "aterm_int_value (AInt i) = Some i"
| "aterm_int_value _ = None"

text \<open>
  \<open>HFdecodeIndex\<close>. \<open>NO_INT\<close> is a macro of a header that is not part of the sources and is
  taken as a parameter. \<open>idx\<close> is what the caller's \<open>*index\<close> holds on entry.
\<close>

function HFdecodeIndex_loop ::
  "int \<Rightarrow> BitStream \<Rightarrow> HFtree \<Rightarrow> int \<Rightarrow> nat option \<Rightarrow> (int \<times> int \<times> BitStream \<times> HFtree) option" where
  "HFdecodeIndex_loop NO_INT fp t idx None = Some (1, idx, fp, t)"
| "HFdecodeIndex_loop NO_INT fp t idx (Some current) =
     (if high (heap t current) = None \<and> low (heap t current) = None then
        (if nterm (heap t current) = ESCAPE_SEQUENCE then
           (case LZreadInt fp of
              Some (idx', fp') \<Rightarrow>
                (case HFadd t (AInt idx') of
                   None \<Rightarrow> None
                 | Some (t1, cur) \<Rightarrow>
                     (case HFupdate t1 (Some cur) of
                        None \<Rightarrow> None
                      | Some t2 \<Rightarrow> Some (if idx' \<noteq> NO_INT then 1 else 0, idx', fp', t2)))
            | None \<Rightarrow> Some (0, idx, fp, t))
         else
           (case HFupdate t (Some current) of
              None \<Rightarrow> None
            | Some t2 \<Rightarrow>
                (case aterm_int_value (nterm (heap t current)) of
                   None \<Rightarrow> None
                 | Some idx' \<Rightarrow> Some (if idx' \<noteq> NO_INT then 1 else 0, idx', fp, t2))))
      else
        (case BSreadBit fp of
           Some (b, fp') \<Rightarrow>
             HFdecodeIndex_loop NO_INT fp' t idx
               (if \<not> b then low (heap t current) else high (heap t current))
         | None \<Rightarrow> Some (0, idx, fp, t)))"
  by pat_completeness auto
termination
  by (relation "measure (\<lambda>(n, fp, t, idx, cur). length fp)") (auto simp: BSreadBit_shorter)

definition HFdecodeIndex ::
  "int \<Rightarrow> BitStream \<Rightarrow> HFtree \<Rightarrow> int \<Rightarrow> (int \<times> int \<times> BitStream \<times> HFtree) option" where
  "HFdecodeIndex NO_INT fp t idx = HFdecodeIndex_loop NO_INT fp t idx (Some (codes t))"

text \<open>\<open>HFencodeATerm\<close> and \<open>HFencodeIndex\<close>: the return value, the stream and the tree.\<close>

definition encode_term :: "BitStream \<Rightarrow> HFtree \<Rightarrow> aterm \<Rightarrow> (BitStream \<Rightarrow> BitStream) \<Rightarrow> (int \<times> BitStream \<times> HFtree) option" where
  "encode_term bs t trm lzwrite =
     (if HTmember (terms t) trm \<and> HTgetPtr (terms t) trm \<noteq> None then
        (case HTgetPtr (terms t) trm of
           None \<Rightarrow> None
         | Some tmp \<Rightarrow>
             (case HFwriteCode bs t tmp of
                None \<Rightarrow> None
              | Some bs1 \<Rightarrow>
                  (case HFupdate t (Some tmp) of
                     None \<Rightarrow> None
                   | Some t1 \<Rightarrow> Some (1, bs1, t1))))
      else
        (case HFwriteCode bs t (top t) of
           None \<Rightarrow> None
         | Some bs1 \<Rightarrow>
             (case HFadd t trm of
                None \<Rightarrow> None
              | Some (t1, tmp) \<Rightarrow>
                  (case HFupdate t1 (Some tmp) of
                     None \<Rightarrow> None
                   | Some t2 \<Rightarrow> Some (0, lzwrite bs1, t2)))))"

definition HFencodeATerm :: "BitStream \<Rightarrow> HFtree \<Rightarrow> aterm \<Rightarrow> (int \<times> BitStream \<times> HFtree) option" where
  "HFencodeATerm bs t trm =
     (let trm1 = (if trm = Null then NO_ATERM else trm)
      in encode_term bs t trm1 (\<lambda>bs1. LZwriteATerm bs1 trm1))"

definition HFencodeIndex :: "BitStream \<Rightarrow> HFtree \<Rightarrow> int \<Rightarrow> (int \<times> BitStream \<times> HFtree) option" where
  "HFencodeIndex bs t idx = encode_term bs t (AInt idx) (\<lambda>bs1. LZwriteInt bs1 idx)"

section \<open>Callers: a sequence of symbols through the encoder and the decoder\<close>

text \<open>
  A symbol is a structured term or an integer index; the constructor selects the entry
  point (\<open>HFencodeATerm\<close> or \<open>HFencodeIndex\<close>, and the matching decoder).
\<close>

datatype symbol = TermSym aterm | IndexSym int

fun HFencode :: "BitStream \<Rightarrow> HFtree \<Rightarrow> symbol \<Rightarrow> (int \<times> BitStream \<times> HFtree) option" where
  "HFencode bs t (TermSym trm) = HFencodeATerm bs t trm"
| "HFencode bs t (IndexSym idx) = HFencodeIndex bs t idx"

text \<open>The term a symbol is looked up under: a null term stands for \<open>NO_ATERM\<close>.\<close>

fun table_key :: "symbol \<Rightarrow> aterm" where
  "table_key (TermSym trm) = (if trm = Null then NO_ATERM else trm)"
| "table_key (IndexSym idx) = AInt idx"

fun literal :: "symbol \<Rightarrow> item" where
  "literal (TermSym trm) = LitTerm (if trm = Null then NO_ATERM else trm)"
| "literal (IndexSym idx) = LitInt idx"

fun encode_all :: "BitStream \<Rightarrow> HFtree \<Rightarrow> symbol list \<Rightarrow> (BitStream \<times> HFtree) option" where
  "encode_all bs t [] = Some (bs, t)"
| "encode_all bs t (s # ss) =
     (case HFencode bs t s of
        None \<Rightarrow> None
      | Some (r, bs', t') \<Rightarrow> encode_all bs' t' ss)"

text \<open>
  The decoder is called once per position with the variant used there (only the
  constructor of the position's symbol is looked at); the output parameter holds the
  null term, respectively 0, on entry. Each call yields its return value and the symbol
  left in the output parameter.
\<close>

fun HFdecode :: "int \<Rightarrow> BitStream \<Rightarrow> HFtree \<Rightarrow> symbol \<Rightarrow> (int \<times> symbol \<times> BitStream \<times> HFtree) option" where
  "HFdecode NO_INT fp t (TermSym _) =
     map_option (\<lambda>(r, trm, fp', t'). (r, TermSym trm, fp', t')) (HFdecodeATerm fp t Null)"
| "HFdecode NO_INT fp t (IndexSym _) =
     map_option (\<lambda>(r, idx, fp', t'). (r, IndexSym idx, fp', t')) (HFdecodeIndex NO_INT fp t 0)"

fun decode_all :: "int \<Rightarrow> BitStream \<Rightarrow> HFtree \<Rightarrow> symbol list \<Rightarrow> ((int \<times> symbol) list \<times> BitStream \<times> HFtree) option" where
  "decode_all NO_INT fp t [] = Some ([], fp, t)"
| "decode_all NO_INT fp t (s # ss) =
     (case HFdecode NO_INT fp t s of
        None \<Rightarrow> None
      | Some (r, s', fp', t') \<Rightarrow>
          (case decode_all NO_INT fp' t' ss of
             None \<Rightarrow> None
           | Some (rs, fp'', t'') \<Rightarrow> Some ((r, s') # rs, fp'', t'')))"

section \<open>The descent of the decoders\<close>

text \<open>
  Both decoders walk down from the root in the same way before they act on a leaf:
  \<open>descend\<close> is that walk on its own. It ends at a leaf with the rest of the stream, on an
  exhausted stream (\<open>BSreadBit\<close> fails), or by following a null child pointer.
\<close>

datatype walk = Leaf nat BitStream | Exhausted BitStream | Fell BitStream

function descend :: "HFtree \<Rightarrow> nat option \<Rightarrow> BitStream \<Rightarrow> walk" where
  "descend t None fp = Fell fp"
| "descend t (Some current) fp =
     (if high (heap t current) = None \<and> low (heap t current) = None then Leaf current fp
      else
        (case BSreadBit fp of
           Some (b, fp') \<Rightarrow>
             descend t (if \<not> b then low (heap t current) else high (heap t current)) fp'
         | None \<Rightarrow> Exhausted fp))"
  by pat_completeness auto
termination
  by (relation "measure (\<lambda>(t, cur, fp). length fp)") (auto simp: BSreadBit_shorter)

text \<open>What a caller sees of a decoder call: the return value and the output parameter.\<close>

definition outcome :: "(int \<times> 'a \<times> BitStream \<times> HFtree) option \<Rightarrow> (int \<times> 'a) option" where
  "outcome r = map_option (\<lambda>(ret, out, fp, t). (ret, out)) r"

definition tree_of :: "(int \<times> 'a \<times> BitStream \<times> HFtree) option \<Rightarrow> HFtree option" where
  "tree_of r = map_option (\<lambda>(ret, out, fp, t). t) r"

section \<open>Trees named in the statements\<close>

text \<open>
  The engine whose only symbol so far is \<open>x\<close>, seen \<open>k\<close> times: the root with the escape
  leaf as low child and the leaf of \<open>x\<close> as high child.
\<close>

definition after_first :: "(aterm \<Rightarrow> nat option option) \<Rightarrow> aterm \<Rightarrow> nat \<Rightarrow> HFtree" where
  "after_first tab x k =
     \<lparr>heap = (\<lambda>_. empty_node)
         (Suc 0 := \<lparr>high = None, low = None, parent = Some 0, frequency = 0, nterm = ESCAPE_SEQUENCE\<rparr>,
          2 := \<lparr>high = None, low = None, parent = Some 0, frequency = k, nterm = x\<rparr>,
          0 := \<lparr>high = Some 2, low = Some (Suc 0), parent = None, frequency = k, nterm = Null\<rparr>),
      nalloc = 3, codes = 0, top = Suc 0, terms = tab(x \<mapsto> Some 2), blockList = [Suc 0, 0, 2]\<rparr>"

text \<open>
  The tree \<open>HFadd\<close> builds in its second branch, where \<open>p\<close> is the parent of the escape
  leaf: a new internal node at \<open>nalloc t\<close> and a new leaf at \<open>Suc (nalloc t)\<close>.
\<close>

definition normal_insert :: "HFtree \<Rightarrow> nat \<Rightarrow> aterm \<Rightarrow> HFtree" where
  "normal_insert t p x =
     t\<lparr>nalloc := Suc (Suc (nalloc t)),
       heap := (heap t)
          (p := (if low (heap t p) = Some (top t) then (heap t p)\<lparr>low := Some (nalloc t)\<rparr>
                 else (heap t p)\<lparr>high := Some (nalloc t)\<rparr>),
           top t := (heap t (top t))\<lparr>parent := Some (nalloc t)\<rparr>,
           Suc (nalloc t) := \<lparr>high = None, low = None, parent = Some (nalloc t),
                              frequency = 0, nterm = x\<rparr>,
           nalloc t := \<lparr>high = Some (Suc (nalloc t)), low = Some (top t), parent = Some p,
                        frequency = freq t (top t), nterm = Null\<rparr>),
       blockList := BLinsert (BLinsert (blockList t) (nalloc t)) (Suc (nalloc t)),
       terms := (terms t)(x := Some (Some (Suc (nalloc t))))\<rparr>"

section \<open>Well-formed engines\<close>

text \<open>The nodes of the tree are the nodes registered in the sibling index.\<close>

definition nodes :: "HFtree \<Rightarrow> nat set" where
  "nodes t = set (blockList t)"

text \<open>
  The sibling index: every node once, all of them allocated, weights non-decreasing along
  the order, and the escape leaf among them with weight 0.
\<close>

definition order_ok :: "HFtree \<Rightarrow> bool" where
  "order_ok t =
     (distinct (blockList t) \<and> (\<forall>n\<in>nodes t. n < nalloc t)
      \<and> sorted (map (freq t) (blockList t)) \<and> top t \<in> nodes t \<and> freq t (top t) = 0)"

text \<open>
  The pointers: the root has no parent and is the only such node; every other node sits
  in a child slot of its parent, and every child slot points to a node whose parent
  pointer points back; a node has no child or two different ones; the escape leaf is a
  leaf that holds the escape marker and is not the root.
\<close>

definition links_ok :: "HFtree \<Rightarrow> bool" where
  "links_ok t =
     (codes t \<in> nodes t \<and> parent (heap t (codes t)) = None \<and> top t \<noteq> codes t
      \<and> is_leaf t (top t) \<and> nterm (heap t (top t)) = ESCAPE_SEQUENCE
      \<and> (\<forall>m\<in>nodes t. case parent (heap t m) of
             None \<Rightarrow> m = codes t
           | Some p \<Rightarrow> p \<in> nodes t \<and> (low (heap t p) = Some m \<or> high (heap t p) = Some m))
      \<and> (\<forall>p\<in>nodes t. \<forall>m. low (heap t p) = Some m \<or> high (heap t p) = Some m \<longrightarrow>
             m \<in> nodes t \<and> parent (heap t m) = Some p)
      \<and> (\<forall>p\<in>nodes t. (low (heap t p) = None) = (high (heap t p) = None))
      \<and> (\<forall>p\<in>nodes t. low (heap t p) \<noteq> None \<longrightarrow> low (heap t p) \<noteq> high (heap t p)))"

text \<open>The symbol table: a pointer it holds is a leaf of the tree, not the escape leaf, and
  the leaf holds the term it is filed under.\<close>

definition table_ok :: "HFtree \<Rightarrow> bool" where
  "table_ok t =
     (\<forall>x n. terms t x = Some (Some n) \<longrightarrow>
        n \<in> nodes t \<and> n \<noteq> top t \<and> is_leaf t n \<and> nterm (heap t n) = x)"

text \<open>
  The weights: a node with two children weighs what its children weigh together. While
  an update is under way (\<open>pending\<close>), the node the loop is about to visit is one short:
  its child has been counted, it has not.
\<close>

definition weights_ok :: "HFtree \<Rightarrow> nat option \<Rightarrow> bool \<Rightarrow> bool" where
  "weights_ok t cur pending =
     (\<forall>p\<in>nodes t. \<forall>a b. low (heap t p) = Some a \<and> high (heap t p) = Some b \<longrightarrow>
        freq t a + freq t b = freq t p + (if pending \<and> cur = Some p then 1 else 0))"

text \<open>
  The engine between two symbol operations, once it holds a symbol: the above, every
  node but the escape leaf has positive weight, and no node is its own parent.
\<close>

definition tree_inv :: "HFtree \<Rightarrow> bool" where
  "tree_inv t =
     (order_ok t \<and> links_ok t \<and> table_ok t \<and> weights_ok t None False
      \<and> (\<forall>m\<in>nodes t. m \<noteq> top t \<longrightarrow> 0 < freq t m)
      \<and> (\<forall>m\<in>nodes t. parent (heap t m) \<noteq> Some m))"

text \<open>An initial table holds no leaf.\<close>

definition fresh_table :: "(aterm \<Rightarrow> nat option option) \<Rightarrow> bool" where
  "fresh_table tab = (\<forall>x. HTgetPtr tab x = None)"

definition engine_inv :: "HFtree \<Rightarrow> bool" where
  "engine_inv t = ((\<exists>tab. fresh_table tab \<and> t = HFinit tab) \<or> tree_inv t)"

text \<open>
  A measure that grows from every node to its parent: twice the weight, plus one for the
  parent of the escape leaf (the one node that weighs what its other child weighs).
\<close>

definition rank :: "HFtree \<Rightarrow> nat \<Rightarrow> nat" where
  "rank t m = 2 * freq t m + (if parent (heap t (top t)) = Some m then 1 else 0)"

text \<open>
  The state of the update loop before an iteration. \<open>V\<close> is the set of nodes the loop has
  visited (and incremented) and \<open>r\<close> a measure fixed when the update starts: it grows
  from every node to its parent, half of it is the weight a node had when the update
  started, and no two nodes share an odd value. Within a block the visited nodes come
  first. A node of weight 0 other than the escape leaf is the node about to be visited,
  or the parent it shares with the escape leaf.
\<close>

definition update_inv :: "HFtree \<Rightarrow> nat option \<Rightarrow> nat set \<Rightarrow> (nat \<Rightarrow> nat) \<Rightarrow> bool" where
  "update_inv t cur V r =
     (order_ok t \<and> links_ok t \<and> table_ok t \<and> weights_ok t cur (V \<noteq> {})
      \<and> (\<forall>c. cur = Some c \<longrightarrow>
             c \<in> nodes t \<and> c \<noteq> top t \<and> (V = {} \<longrightarrow> is_leaf t c) \<and> (\<forall>v\<in>V. r v < r c)
             \<and> (freq t c = 0 \<longrightarrow>
                  parent (heap t (top t)) = parent (heap t c)
                  \<or> parent (heap t (top t)) = Some c))
      \<and> (\<forall>m\<in>nodes t. freq t m = 0 \<longrightarrow>
             m = top t \<or> cur = Some m
             \<or> (\<exists>c. cur = Some c \<and> freq t c = 0 \<and> parent (heap t c) = Some m
                     \<and> parent (heap t (top t)) = Some m))
      \<and> (\<forall>m\<in>nodes t. \<forall>p. parent (heap t m) = Some p \<longrightarrow> r m < r p)
      \<and> (\<forall>m\<in>nodes t. \<forall>m'\<in>nodes t. odd (r m) \<longrightarrow> r m = r m' \<longrightarrow> m = m')
      \<and> (\<forall>m\<in>nodes t. freq t m = r m div 2 + (if m \<in> V then 1 else 0))
      \<and> sorted_wrt (\<lambda>a b. freq t a = freq t b \<longrightarrow> b \<in> V \<longrightarrow> a \<in> V) (blockList t))"

text \<open>
  The states a caller can bring an engine to: initialised with a table that holds no
  leaf, then any encoder or decoder call that returns, on any symbol and any stream.
\<close>

inductive reachable :: "HFtree \<Rightarrow> bool" where
  init: "fresh_table tab \<Longrightarrow> reachable (HFinit tab)"
| encode: "reachable t \<Longrightarrow> HFencode bs t s = Some (r, bs', t') \<Longrightarrow> reachable t'"
| decodeATerm: "reachable t \<Longrightarrow> HFdecodeATerm fp t trm = Some (r, out, fp', t') \<Longrightarrow> reachable t'"
| decodeIndex: "reachable t \<Longrightarrow> HFdecodeIndex NO_INT fp t idx = Some (r, iout, fp', t') \<Longrightarrow> reachable t'"

section \<open>The properties the statements are about\<close>

text \<open>
  A round trip: the symbols are encoded by a fresh engine onto an empty stream, and the
  stream is decoded by an engine initialised in the same way, with the variant matching
  each position. The result lists, per position, the return value of the decoder and the
  symbol it left in its output parameter.
\<close>

definition round_trip :: "int \<Rightarrow> (aterm \<Rightarrow> nat option option) \<Rightarrow> symbol list \<Rightarrow> (int \<times> symbol) list option" where
  "round_trip NO_INT tab ss =
     (case encode_all [] (HFinit tab) ss of
        None \<Rightarrow> None
      | Some (wire, t) \<Rightarrow> map_option fst (decode_all NO_INT wire (HFinit tab) ss))"

text \<open>
  The symbols that are not reserved: a term other than the null term and the two markers,
  an index other than \<open>NO_INT\<close>.
\<close>

fun plain :: "int \<Rightarrow> symbol \<Rightarrow> bool" where
  "plain NO_INT (TermSym trm) = (trm \<noteq> Null \<and> trm \<noteq> NO_ATERM \<and> trm \<noteq> ESCAPE_SEQUENCE)"
| "plain NO_INT (IndexSym idx) = (idx \<noteq> NO_INT)"



section \<open>The decoders in terms of the descent\<close>

declare HFdecodeATerm_loop.simps [simp del] HFdecodeIndex_loop.simps [simp del] descend.simps [simp del]

lemma descend_None [simp]: "descend t None fp = Fell fp"
  by (simp add: descend.simps)

lemma descend_at_leaf [simp]:
  "high (heap t n) = None \<Longrightarrow> low (heap t n) = None \<Longrightarrow> descend t (Some n) fp = Leaf n fp"
  by (simp add: descend.simps)

lemma descend_step:
  "\<not> (high (heap t n) = None \<and> low (heap t n) = None) \<Longrightarrow>
   descend t (Some n) fp =
     (case BSreadBit fp of
        Some (b, fp') \<Rightarrow> descend t (if \<not> b then low (heap t n) else high (heap t n)) fp'
      | None \<Rightarrow> Exhausted fp)"
  by (subst descend.simps) (simp only: if_False)

lemma HFdecodeATerm_loop_step:
  "\<not> (high (heap t n) = None \<and> low (heap t n) = None) \<Longrightarrow>
   HFdecodeATerm_loop fp t trm (Some n) =
     (case BSreadBit fp of
        Some (b, fp') \<Rightarrow>
          HFdecodeATerm_loop fp' t trm (if \<not> b then low (heap t n) else high (heap t n))
      | None \<Rightarrow> Some (0, trm, fp, t))"
  by (subst HFdecodeATerm_loop.simps) (simp only: if_False)

lemma HFdecodeIndex_loop_step:
  "\<not> (high (heap t n) = None \<and> low (heap t n) = None) \<Longrightarrow>
   HFdecodeIndex_loop NO_INT fp t idx (Some n) =
     (case BSreadBit fp of
        Some (b, fp') \<Rightarrow>
          HFdecodeIndex_loop NO_INT fp' t idx (if \<not> b then low (heap t n) else high (heap t n))
      | None \<Rightarrow> Some (0, idx, fp, t))"
  by (subst HFdecodeIndex_loop.simps) (simp only: if_False)

lemma HFdecodeATerm_loop_leaf:
  "high (heap t n) = None \<Longrightarrow> low (heap t n) = None \<Longrightarrow>
   HFdecodeATerm_loop fp t trm (Some n) =
     (if nterm (heap t n) = ESCAPE_SEQUENCE then
        (case LZreadATerm fp of
           Some (trm', fp') \<Rightarrow>
             (case HFadd t trm' of
                None \<Rightarrow> None
              | Some (t1, cur) \<Rightarrow>
                  (case HFupdate t1 (Some cur) of
                     None \<Rightarrow> None
                   | Some t2 \<Rightarrow>
                       if trm' = NO_ATERM then Some (0, Null, fp', t2)
                       else Some (1, trm', fp', t2)))
         | None \<Rightarrow> Some (0, ESCAPE_SEQUENCE, fp, t))
      else
        (case HFupdate t (Some n) of
           None \<Rightarrow> None
         | Some t2 \<Rightarrow>
             if nterm (heap t n) = NO_ATERM then Some (0, Null, fp, t2)
             else Some (1, nterm (heap t n), fp, t2)))"
  by (simp add: HFdecodeATerm_loop.simps)

lemma HFdecodeIndex_loop_leaf:
  "high (heap t n) = None \<Longrightarrow> low (heap t n) = None \<Longrightarrow>
   HFdecodeIndex_loop NO_INT fp t idx (Some n) =
     (if nterm (heap t n) = ESCAPE_SEQUENCE then
        (case LZreadInt fp of
           Some (idx', fp') \<Rightarrow>
             (case HFadd t (AInt idx') of
                None \<Rightarrow> None
              | Some (t1, cur) \<Rightarrow>
                  (case HFupdate t1 (Some cur) of
                     None \<Rightarrow> None
                   | Some t2 \<Rightarrow> Some (if idx' \<noteq> NO_INT then 1 else 0, idx', fp', t2)))
         | None \<Rightarrow> Some (0, idx, fp, t))
      else
        (case HFupdate t (Some n) of
           None \<Rightarrow> None
         | Some t2 \<Rightarrow>
             (case aterm_int_value (nterm (heap t n)) of
                None \<Rightarrow> None
              | Some idx' \<Rightarrow> Some (if idx' \<noteq> NO_INT then 1 else 0, idx', fp, t2))))"
  by (simp add: HFdecodeIndex_loop.simps)

lemma descend_leaf:
  "descend t cur fp = Leaf n fp' \<Longrightarrow> high (heap t n) = None \<and> low (heap t n) = None"
  by (induction t cur fp rule: descend.induct) (auto simp: descend.simps split: if_splits option.splits)

lemma HFdecodeATerm_loop_descend:
  "HFdecodeATerm_loop fp t trm cur =
     (case descend t cur fp of
        Fell fp' \<Rightarrow> Some (1, trm, fp', t)
      | Exhausted fp' \<Rightarrow> Some (0, trm, fp', t)
      | Leaf n fp' \<Rightarrow> HFdecodeATerm_loop fp' t trm (Some n))"
proof (induction t cur fp rule: descend.induct)
  case (1 t fp)
  show ?case by (simp add: HFdecodeATerm_loop.simps)
next
  case (2 t current fp)
  show ?case
  proof (cases "high (heap t current) = None \<and> low (heap t current) = None")
    case True
    then show ?thesis by simp
  next
    case False
    show ?thesis
    proof (cases "BSreadBit fp")
      case None
      with False show ?thesis by (simp add: HFdecodeATerm_loop_step descend_step)
    next
      case (Some a)
      obtain b fp' where a: "a = (b, fp')" by (cases a)
      from 2[OF False Some a[symmetric]] False Some a
      show ?thesis by (simp add: HFdecodeATerm_loop_step descend_step)
    qed
  qed
qed

lemma HFdecodeIndex_loop_descend:
  "HFdecodeIndex_loop NO_INT fp t idx cur =
     (case descend t cur fp of
        Fell fp' \<Rightarrow> Some (1, idx, fp', t)
      | Exhausted fp' \<Rightarrow> Some (0, idx, fp', t)
      | Leaf n fp' \<Rightarrow> HFdecodeIndex_loop NO_INT fp' t idx (Some n))"
proof (induction t cur fp rule: descend.induct)
  case (1 t fp)
  show ?case by (simp add: HFdecodeIndex_loop.simps)
next
  case (2 t current fp)
  show ?case
  proof (cases "high (heap t current) = None \<and> low (heap t current) = None")
    case True
    then show ?thesis by simp
  next
    case False
    show ?thesis
    proof (cases "BSreadBit fp")
      case None
      with False show ?thesis by (simp add: HFdecodeIndex_loop_step descend_step)
    next
      case (Some a)
      obtain b fp' where a: "a = (b, fp')" by (cases a)
      from 2[OF False Some a[symmetric]] False Some a
      show ?thesis by (simp add: HFdecodeIndex_loop_step descend_step)
    qed
  qed
qed

lemma decodeATerm_at_leaf:
  assumes "descend t (Some (codes t)) fp = Leaf n fp1"
  shows "HFdecodeATerm fp t trm = HFdecodeATerm_loop fp1 t trm (Some n)"
  using assms by (simp add: HFdecodeATerm_def HFdecodeATerm_loop_descend[of fp])

lemma decodeIndex_at_leaf:
  assumes "descend t (Some (codes t)) fp = Leaf n fp1"
  shows "HFdecodeIndex NO_INT fp t idx = HFdecodeIndex_loop NO_INT fp1 t idx (Some n)"
  using assms by (simp add: HFdecodeIndex_def HFdecodeIndex_loop_descend[of _ fp])

lemma sentinels_differ [simp]:
  "NO_ATERM \<noteq> ESCAPE_SEQUENCE" "ESCAPE_SEQUENCE \<noteq> NO_ATERM"
  "NO_ATERM \<noteq> Null" "ESCAPE_SEQUENCE \<noteq> Null" "Null \<noteq> NO_ATERM" "Null \<noteq> ESCAPE_SEQUENCE"
  by (simp_all add: NO_ATERM_def ESCAPE_SEQUENCE_def)

section \<open>Claims settled on the decoders\<close>

text \<open>
  Claim C7. When the decoder has walked down to the escape leaf and the literal coder
  cannot recover a symbol, the call returns 0 and the tree it returns is the tree it was
  given: nothing is inserted, no weight changes, and the store, the sibling index and
  the symbol table are as before. This holds for both decoders.
\<close>

theorem literal_read_failure_leaves_tree:
  assumes "descend t (Some (codes t)) fp = Leaf n fp1"
    and "nterm (heap t n) = ESCAPE_SEQUENCE"
  shows "(LZreadATerm fp1 = None \<longrightarrow>
            (\<exists>trm' fp'. HFdecodeATerm fp t trm = Some (0, trm', fp', t)))
       \<and> (LZreadInt fp1 = None \<longrightarrow>
            (\<exists>idx' fp'. HFdecodeIndex NO_INT fp t idx = Some (0, idx', fp', t)))"
  using assms descend_leaf[OF assms(1)]
  by (simp add: decodeATerm_at_leaf decodeIndex_at_leaf HFdecodeATerm_loop_leaf HFdecodeIndex_loop_leaf)

text \<open>The fresh engine on the stream that holds only the escape code word.\<close>

theorem literal_read_failure_witness:
  "tree_of (HFdecodeATerm [Bit False] (HFinit Map.empty) Null) = Some (HFinit Map.empty)
   \<and> tree_of (HFdecodeIndex 7 [Bit False] (HFinit Map.empty) 0) = Some (HFinit Map.empty)"
proof -
  have d: "descend (HFinit Map.empty) (Some (codes (HFinit Map.empty))) [Bit False] = Leaf 1 []"
    by (simp add: HFinit_def descend_step)
  have e: "nterm (heap (HFinit Map.empty) 1) = ESCAPE_SEQUENCE"
    by (simp add: HFinit_def)
  from literal_read_failure_leaves_tree[OF d e, of Null 7 0]
  show ?thesis by (auto simp: tree_of_def)
qed

text \<open>
  Claim C10. When the decoder has walked down to the escape leaf and the literal read
  back is the sentinel (\<open>NO_ATERM\<close> for terms, \<open>NO_INT\<close> for indices), the call is
  \<open>HFadd\<close> of the sentinel followed by \<open>HFupdate\<close> from the new leaf, and only then
  returns 0 (with the null term, respectively \<open>NO_INT\<close>, in the output parameter).
\<close>

theorem sentinel_decode_inserts_and_updates:
  assumes "descend t (Some (codes t)) fp = Leaf n fp1"
    and "nterm (heap t n) = ESCAPE_SEQUENCE"
  shows "(LZreadATerm fp1 = Some (NO_ATERM, fp2) \<longrightarrow>
            HFdecodeATerm fp t trm =
              (case HFadd t NO_ATERM of
                 None \<Rightarrow> None
               | Some (t1, leaf) \<Rightarrow>
                   (case HFupdate t1 (Some leaf) of
                      None \<Rightarrow> None
                    | Some t2 \<Rightarrow> Some (0, Null, fp2, t2))))
       \<and> (LZreadInt fp1 = Some (NO_INT, fp2) \<longrightarrow>
            HFdecodeIndex NO_INT fp t idx =
              (case HFadd t (AInt NO_INT) of
                 None \<Rightarrow> None
               | Some (t1, leaf) \<Rightarrow>
                   (case HFupdate t1 (Some leaf) of
                      None \<Rightarrow> None
                    | Some t2 \<Rightarrow> Some (0, NO_INT, fp2, t2))))"
  using assms descend_leaf[OF assms(1)]
  by (auto simp add: decodeATerm_at_leaf decodeIndex_at_leaf HFdecodeATerm_loop_leaf HFdecodeIndex_loop_leaf split: option.splits)

text \<open>
  On the fresh engine the sentinel ends up in the symbol table, at a new leaf of weight 1.
\<close>

theorem sentinel_decode_witness:
  "(case HFdecodeATerm [Bit False, LitTerm NO_ATERM] (HFinit Map.empty) Null of
      None \<Rightarrow> False
    | Some (r, trm, fp, t) \<Rightarrow>
        r = 0 \<and> trm = Null \<and> HTgetPtr (terms t) NO_ATERM = Some 2 \<and> freq t 2 = 1 \<and> nalloc t = 3)
   \<and> (case HFdecodeIndex 7 [Bit False, LitInt 7] (HFinit Map.empty) 0 of
      None \<Rightarrow> False
    | Some (r, idx, fp, t) \<Rightarrow>
        r = 0 \<and> idx = 7 \<and> HTgetPtr (terms t) (AInt 7) = Some 2 \<and> freq t 2 = 1 \<and> nalloc t = 3)"
proof -
  let ?T = "HFinit Map.empty"
  have d1: "descend ?T (Some (codes ?T)) [Bit False, LitTerm NO_ATERM] = Leaf 1 [LitTerm NO_ATERM]"
    by (simp add: HFinit_def descend_step)
  have d2: "descend ?T (Some (codes ?T)) [Bit False, LitInt 7] = Leaf 1 [LitInt 7]"
    by (simp add: HFinit_def descend_step)
  have e: "nterm (heap ?T 1) = ESCAPE_SEQUENCE"
    by (simp add: HFinit_def)
  have l1: "LZreadATerm [LitTerm NO_ATERM] = Some (NO_ATERM, [])" by simp
  have l2: "LZreadInt [LitInt 7] = Some (7, [])" by simp
  have a1: "HFdecodeATerm [Bit False, LitTerm NO_ATERM] ?T Null =
     (case HFadd ?T NO_ATERM of None \<Rightarrow> None
      | Some (t1, leaf) \<Rightarrow>
          (case HFupdate t1 (Some leaf) of None \<Rightarrow> None | Some t2 \<Rightarrow> Some (0, Null, [], t2)))"
    using sentinel_decode_inserts_and_updates[OF d1 e, of "[]" Null] l1 by blast
  have a2: "HFdecodeIndex 7 [Bit False, LitInt 7] ?T 0 =
     (case HFadd ?T (AInt 7) of None \<Rightarrow> None
      | Some (t1, leaf) \<Rightarrow>
          (case HFupdate t1 (Some leaf) of None \<Rightarrow> None | Some t2 \<Rightarrow> Some (0, 7, [], t2)))"
    using sentinel_decode_inserts_and_updates[OF d2 e, of "[]" _ 7 0] l2 by blast
  show ?thesis
    unfolding a1 a2 by code_simp
qed

lemma decodeATerm_exhausted:
  "descend t (Some (codes t)) fp = Exhausted fp' \<Longrightarrow> HFdecodeATerm fp t trm = Some (0, trm, fp', t)"
  by (simp add: HFdecodeATerm_def HFdecodeATerm_loop_descend[of fp])

lemma decodeIndex_exhausted:
  "descend t (Some (codes t)) fp = Exhausted fp' \<Longrightarrow> HFdecodeIndex NO_INT fp t idx = Some (0, idx, fp', t)"
  by (simp add: HFdecodeIndex_def HFdecodeIndex_loop_descend[of _ fp])

text \<open>
  Claim C6, as stated, fails. On the fresh engine, with a null term in the caller's
  output parameter, decoding the sentinel and running out of bits give the caller the
  same return value and the same output parameter.
\<close>

theorem end_of_stream_looks_like_exhaustion:
  "outcome (HFdecodeATerm [Bit False, LitTerm NO_ATERM] (HFinit Map.empty) Null) = Some (0, Null)
   \<and> outcome (HFdecodeATerm [] (HFinit Map.empty) Null) = Some (0, Null)"
  by code_simp

text \<open>
  Claim C6, amended. A sentinel decode returns 0 with the output parameter set to the
  null term (\<open>HFdecodeATerm\<close>) or to \<open>NO_INT\<close> (\<open>HFdecodeIndex\<close>), whether the sentinel
  arrives as a literal behind the escape leaf or is found at its own leaf. The error
  cases return 0 as well, so the return value does not tell them apart. An exhausted bit
  stream leaves the output parameter as the caller passed it, so the sentinel differs
  from it exactly when the caller did not pass the null term, respectively \<open>NO_INT\<close>.
\<close>

theorem end_of_stream_outcome:
  "(descend t (Some (codes t)) fp = Exhausted fp' \<longrightarrow>
      outcome (HFdecodeATerm fp t trm) = Some (0, trm)
      \<and> outcome (HFdecodeIndex NO_INT fp t idx) = Some (0, idx))
   \<and> (descend t (Some (codes t)) fp = Leaf n fp1 \<and> nterm (heap t n) = ESCAPE_SEQUENCE \<longrightarrow>
        (LZreadATerm fp1 = None \<longrightarrow> (\<exists>out. outcome (HFdecodeATerm fp t trm) = Some (0, out)))
      \<and> (LZreadInt fp1 = None \<longrightarrow> (\<exists>out. outcome (HFdecodeIndex NO_INT fp t idx) = Some (0, out)))
      \<and> (LZreadATerm fp1 = Some (NO_ATERM, fp2) \<longrightarrow>
            outcome (HFdecodeATerm fp t trm) =
              map_option (\<lambda>t2. (0, Null))
                (Option.bind (HFadd t NO_ATERM) (\<lambda>(t1, leaf). HFupdate t1 (Some leaf))))
      \<and> (LZreadInt fp1 = Some (NO_INT, fp2) \<longrightarrow>
            outcome (HFdecodeIndex NO_INT fp t idx) =
              map_option (\<lambda>t2. (0, NO_INT))
                (Option.bind (HFadd t (AInt NO_INT)) (\<lambda>(t1, leaf). HFupdate t1 (Some leaf)))))
   \<and> (descend t (Some (codes t)) fp = Leaf n fp1 \<and> nterm (heap t n) = NO_ATERM \<longrightarrow>
        outcome (HFdecodeATerm fp t trm) = map_option (\<lambda>t2. (0, Null)) (HFupdate t (Some n)))
   \<and> (descend t (Some (codes t)) fp = Leaf n fp1 \<and> nterm (heap t n) = AInt NO_INT \<longrightarrow>
        outcome (HFdecodeIndex NO_INT fp t idx) = map_option (\<lambda>t2. (0, NO_INT)) (HFupdate t (Some n)))"
proof (intro conjI impI)
  assume "descend t (Some (codes t)) fp = Exhausted fp'"
  then show "outcome (HFdecodeATerm fp t trm) = Some (0, trm)"
    and "outcome (HFdecodeIndex NO_INT fp t idx) = Some (0, idx)"
    by (simp_all add: decodeATerm_exhausted decodeIndex_exhausted outcome_def)
next
  assume a: "descend t (Some (codes t)) fp = Leaf n fp1 \<and> nterm (heap t n) = ESCAPE_SEQUENCE"
  note l = descend_leaf[OF a[THEN conjunct1]]
  { assume "LZreadATerm fp1 = None"
    with a l show "\<exists>out. outcome (HFdecodeATerm fp t trm) = Some (0, out)"
      by (simp add: decodeATerm_at_leaf HFdecodeATerm_loop_leaf outcome_def) }
  { assume "LZreadInt fp1 = None"
    with a l show "\<exists>out. outcome (HFdecodeIndex NO_INT fp t idx) = Some (0, out)"
      by (simp add: decodeIndex_at_leaf HFdecodeIndex_loop_leaf outcome_def) }
  { assume "LZreadATerm fp1 = Some (NO_ATERM, fp2)"
    with a l show "outcome (HFdecodeATerm fp t trm) =
              map_option (\<lambda>t2. (0, Null))
                (Option.bind (HFadd t NO_ATERM) (\<lambda>(t1, leaf). HFupdate t1 (Some leaf)))"
      by (auto simp add: decodeATerm_at_leaf HFdecodeATerm_loop_leaf outcome_def split: option.splits) }
  { assume "LZreadInt fp1 = Some (NO_INT, fp2)"
    with a l show "outcome (HFdecodeIndex NO_INT fp t idx) =
              map_option (\<lambda>t2. (0, NO_INT))
                (Option.bind (HFadd t (AInt NO_INT)) (\<lambda>(t1, leaf). HFupdate t1 (Some leaf)))"
      by (auto simp add: decodeIndex_at_leaf HFdecodeIndex_loop_leaf outcome_def split: option.splits) }
next
  assume a: "descend t (Some (codes t)) fp = Leaf n fp1 \<and> nterm (heap t n) = NO_ATERM"
  note l = descend_leaf[OF a[THEN conjunct1]]
  from a l show "outcome (HFdecodeATerm fp t trm) = map_option (\<lambda>t2. (0, Null)) (HFupdate t (Some n))"
    by (auto simp add: decodeATerm_at_leaf HFdecodeATerm_loop_leaf outcome_def split: option.splits)
next
  assume a: "descend t (Some (codes t)) fp = Leaf n fp1 \<and> nterm (heap t n) = AInt NO_INT"
  note l = descend_leaf[OF a[THEN conjunct1]]
  have "AInt NO_INT \<noteq> ESCAPE_SEQUENCE" by (simp add: ESCAPE_SEQUENCE_def)
  with a l show "outcome (HFdecodeIndex NO_INT fp t idx) = map_option (\<lambda>t2. (0, NO_INT)) (HFupdate t (Some n))"
    by (auto simp add: decodeIndex_at_leaf HFdecodeIndex_loop_leaf outcome_def split: option.splits)
qed

text \<open>The fresh engine, with an output parameter that is not the sentinel's.\<close>

theorem end_of_stream_outcome_witness:
  "outcome (HFdecodeATerm [] (HFinit Map.empty) (AInt 3)) = Some (0, AInt 3)
   \<and> outcome (HFdecodeIndex 7 [] (HFinit Map.empty) 5) = Some (0, 5)
   \<and> outcome (HFdecodeATerm [Bit False, LitTerm NO_ATERM] (HFinit Map.empty) (AInt 3)) = Some (0, Null)
   \<and> outcome (HFdecodeIndex 7 [Bit False, LitInt 7] (HFinit Map.empty) 5) = Some (0, 7)"
proof -
  let ?T = "HFinit Map.empty"
  have d0: "descend ?T (Some (codes ?T)) [] = Exhausted []"
    by (simp add: HFinit_def descend_step)
  have d1: "descend ?T (Some (codes ?T)) [Bit False, LitTerm NO_ATERM] = Leaf 1 [LitTerm NO_ATERM]
      \<and> nterm (heap ?T 1) = ESCAPE_SEQUENCE"
    by (simp add: HFinit_def descend_step)
  have d2: "descend ?T (Some (codes ?T)) [Bit False, LitInt 7] = Leaf 1 [LitInt 7]
      \<and> nterm (heap ?T 1) = ESCAPE_SEQUENCE"
    by (simp add: HFinit_def descend_step)
  have u1: "Option.bind (HFadd ?T NO_ATERM) (\<lambda>(t1, leaf). HFupdate t1 (Some leaf)) \<noteq> None"
    by code_simp
  have u2: "Option.bind (HFadd ?T (AInt 7)) (\<lambda>(t1, leaf). HFupdate t1 (Some leaf)) \<noteq> None"
    by code_simp
  have a: "outcome (HFdecodeATerm [] ?T (AInt 3)) = Some (0, AInt 3)"
    and b: "outcome (HFdecodeIndex 7 [] ?T 5) = Some (0, 5)"
    using end_of_stream_outcome[of ?T "[]" "[]" "AInt 3" 7 5] d0 by blast+
  have c: "outcome (HFdecodeATerm [Bit False, LitTerm NO_ATERM] ?T (AInt 3)) = Some (0, Null)"
    using end_of_stream_outcome[of ?T "[Bit False, LitTerm NO_ATERM]" _ "AInt 3" _ _ 1 "[LitTerm NO_ATERM]" "[]"] d1 u1
    by auto
  have d: "outcome (HFdecodeIndex 7 [Bit False, LitInt 7] ?T 5) = Some (0, 7)"
    using end_of_stream_outcome[of ?T "[Bit False, LitInt 7]" _ _ 7 5 1 "[LitInt 7]" "[]"] d2 u2
    by auto
  from a b c d show ?thesis by blast
qed

section \<open>Claims settled on the encoders\<close>

lemma HFadd_keeps_weights:
  assumes "HFadd t x = Some (t1, leaf)" and "n < nalloc t"
  shows "freq t1 n = freq t n"
  using assms
  by (auto simp: HFadd_def Let_def new_node_def HTstore_def set_parent_def freq_def
           split: option.splits if_splits)

lemma HFadd_leaf_fresh:
  assumes "HFadd t x = Some (t1, leaf)"
  shows "nalloc t \<le> leaf"
  using assms
  by (auto simp: HFadd_def Let_def new_node_def HTstore_def set_parent_def split: option.splits if_splits)

text \<open>
  Claim C5. A symbol that has no leaf is encoded by writing the code of the escape leaf
  and the literal, then \<open>HFadd\<close> on the tree as it was, then one \<open>HFupdate\<close> from the
  new leaf. \<open>HFadd\<close> changes the weight of no node that existed, so no weight on the way
  to the escape leaf goes up for the escape itself. The decoders do the same once they
  have reached the escape leaf and read the literal.
\<close>

theorem unknown_symbol_single_update:
  "(\<not> (HTmember (terms t) (table_key s) \<and> HTgetPtr (terms t) (table_key s) \<noteq> None)
      \<and> HFencode bs t s = Some (r, bs', t') \<longrightarrow>
      (\<exists>bs1 t1 leaf. HFwriteCode bs t (top t) = Some bs1 \<and> bs' = bs1 @ [literal s] \<and> r = 0
          \<and> HFadd t (table_key s) = Some (t1, leaf) \<and> HFupdate t1 (Some leaf) = Some t'
          \<and> nalloc t \<le> leaf \<and> (\<forall>n. n < nalloc t \<longrightarrow> freq t1 n = freq t n)))
   \<and> (descend t (Some (codes t)) fp = Leaf n fp1 \<and> nterm (heap t n) = ESCAPE_SEQUENCE
      \<and> LZreadATerm fp1 = Some (x, fp2) \<and> HFdecodeATerm fp t trm = Some (r, out, fp', t') \<longrightarrow>
      (\<exists>t1 leaf. HFadd t x = Some (t1, leaf) \<and> HFupdate t1 (Some leaf) = Some t'
          \<and> nalloc t \<le> leaf \<and> (\<forall>n. n < nalloc t \<longrightarrow> freq t1 n = freq t n)))
   \<and> (descend t (Some (codes t)) fp = Leaf n fp1 \<and> nterm (heap t n) = ESCAPE_SEQUENCE
      \<and> LZreadInt fp1 = Some (i, fp2) \<and> HFdecodeIndex NO_INT fp t idx = Some (r, iout, fp', t') \<longrightarrow>
      (\<exists>t1 leaf. HFadd t (AInt i) = Some (t1, leaf) \<and> HFupdate t1 (Some leaf) = Some t'
          \<and> nalloc t \<le> leaf \<and> (\<forall>n. n < nalloc t \<longrightarrow> freq t1 n = freq t n)))"
proof (intro conjI impI)
  assume a: "\<not> (HTmember (terms t) (table_key s) \<and> HTgetPtr (terms t) (table_key s) \<noteq> None)
      \<and> HFencode bs t s = Some (r, bs', t')"
  then obtain bs1 t1 leaf where
    "HFwriteCode bs t (top t) = Some bs1" "HFadd t (table_key s) = Some (t1, leaf)"
    "HFupdate t1 (Some leaf) = Some t'" "bs' = bs1 @ [literal s]" "r = 0"
    by (cases s)
       (auto simp: encode_term_def HFencodeATerm_def HFencodeIndex_def Let_def
          LZwriteATerm_def LZwriteInt_def split: option.splits if_splits)
  then show "\<exists>bs1 t1 leaf. HFwriteCode bs t (top t) = Some bs1 \<and> bs' = bs1 @ [literal s] \<and> r = 0
          \<and> HFadd t (table_key s) = Some (t1, leaf) \<and> HFupdate t1 (Some leaf) = Some t'
          \<and> nalloc t \<le> leaf \<and> (\<forall>n. n < nalloc t \<longrightarrow> freq t1 n = freq t n)"
    using HFadd_keeps_weights HFadd_leaf_fresh by blast
next
  assume a: "descend t (Some (codes t)) fp = Leaf n fp1 \<and> nterm (heap t n) = ESCAPE_SEQUENCE
      \<and> LZreadATerm fp1 = Some (x, fp2) \<and> HFdecodeATerm fp t trm = Some (r, out, fp', t')"
  note l = descend_leaf[OF a[THEN conjunct1]]
  from a l obtain t1 leaf where "HFadd t x = Some (t1, leaf)" "HFupdate t1 (Some leaf) = Some t'"
    by (auto simp: decodeATerm_at_leaf HFdecodeATerm_loop_leaf split: option.splits if_splits)
  then show "\<exists>t1 leaf. HFadd t x = Some (t1, leaf) \<and> HFupdate t1 (Some leaf) = Some t'
          \<and> nalloc t \<le> leaf \<and> (\<forall>n. n < nalloc t \<longrightarrow> freq t1 n = freq t n)"
    using HFadd_keeps_weights HFadd_leaf_fresh by blast
next
  assume a: "descend t (Some (codes t)) fp = Leaf n fp1 \<and> nterm (heap t n) = ESCAPE_SEQUENCE
      \<and> LZreadInt fp1 = Some (i, fp2) \<and> HFdecodeIndex NO_INT fp t idx = Some (r, iout, fp', t')"
  note l = descend_leaf[OF a[THEN conjunct1]]
  from a l obtain t1 leaf where "HFadd t (AInt i) = Some (t1, leaf)" "HFupdate t1 (Some leaf) = Some t'"
    by (auto simp: decodeIndex_at_leaf HFdecodeIndex_loop_leaf split: option.splits if_splits)
  then show "\<exists>t1 leaf. HFadd t (AInt i) = Some (t1, leaf) \<and> HFupdate t1 (Some leaf) = Some t'
          \<and> nalloc t \<le> leaf \<and> (\<forall>n. n < nalloc t \<longrightarrow> freq t1 n = freq t n)"
    using HFadd_keeps_weights HFadd_leaf_fresh by blast
qed

text \<open>The first index through a fresh engine.\<close>

theorem unknown_symbol_witness:
  "(case HFencode [] (HFinit Map.empty) (IndexSym 5) of
      None \<Rightarrow> False
    | Some (r, bs, t') \<Rightarrow>
        (case HFadd (HFinit Map.empty) (AInt 5) of
           None \<Rightarrow> False
         | Some (t1, leaf) \<Rightarrow>
             HFupdate t1 (Some leaf) = Some t' \<and> r = 0 \<and> bs = [Bit False, LitInt 5]
             \<and> leaf = 2 \<and> freq t1 0 = 0 \<and> freq t1 1 = 0))"
proof -
  let ?T = "HFinit Map.empty"
  have u: "\<not> (HTmember (terms ?T) (table_key (IndexSym 5))
             \<and> HTgetPtr (terms ?T) (table_key (IndexSym 5)) \<noteq> None)"
    by (simp add: HFinit_def HTmember_def)
  have "HFencode [] ?T (IndexSym 5) \<noteq> None"
    by code_simp
  then obtain r bs t' where e: "HFencode [] ?T (IndexSym 5) = Some (r, bs, t')"
    by (cases "HFencode [] ?T (IndexSym 5)") auto
  have w: "HFwriteCode [] ?T (top ?T) = Some [Bit False]"
    by code_simp
  have n: "nalloc ?T = 2"
    by (simp add: HFinit_def)
  from unknown_symbol_single_update[THEN conjunct1, of ?T "IndexSym 5" "[]" r bs t'] u e
  obtain bs1 t1 leaf where
    "HFwriteCode [] ?T (top ?T) = Some bs1" "bs = bs1 @ [literal (IndexSym 5)]" "r = 0"
    "HFadd ?T (table_key (IndexSym 5)) = Some (t1, leaf)" "HFupdate t1 (Some leaf) = Some t'"
    "\<forall>n. n < nalloc ?T \<longrightarrow> freq t1 n = freq ?T n"
    by blast
  moreover have "freq ?T 0 = 0" "freq ?T 1 = 0"
    by (simp_all add: HFinit_def freq_def)
  moreover have "map_option snd (HFadd ?T (AInt 5)) = Some 2"
    by code_simp
  ultimately show ?thesis
    using e w n by auto
qed

section \<open>The update loop\<close>

lemma HFupdate_None [simp]: "HFupdate t None = Some t"
  by (simp add: HFupdate.simps)

lemma HFupdate_Some:
  "HFupdate t (Some c) =
     (case HFsuccessor t c of
        None \<Rightarrow> None
      | Some None \<Rightarrow> (let t' = BLswap t c None in HFupdate t' (parent (heap t' c)))
      | Some (Some s) \<Rightarrow>
          (case HFswap (BLswap t c (Some s)) c s of
             None \<Rightarrow> None
           | Some t' \<Rightarrow> HFupdate t' (parent (heap t' c))))"
  by (subst HFupdate.simps) simp

text \<open>
  Claim C3, as stated, fails. After the indices 1, 2, 3 have gone through a fresh engine,
  the leaf of 3 is node 6 and the leader of its block is node 4, which is neither node 6
  nor its parent nor any of its ancestors (5, 3 and the root 0). Encoding 3 again starts
  the update at node 6, and the node it is swapped with is node 2, the node before the
  leader in the sibling index.
\<close>

theorem update_swaps_with_node_before_leader:
  "(case encode_all [] (HFinit Map.empty) [IndexSym 1, IndexSym 2, IndexSym 3] of
      None \<Rightarrow> False
    | Some (bs, t) \<Rightarrow>
        HTgetPtr (terms t) (AInt 3) = Some 6
        \<and> Blast (freq t) (blockList t) 6 = Some 4
        \<and> parent (heap t 6) = Some 5 \<and> parent (heap t 5) = Some 3
        \<and> parent (heap t 3) = Some 0 \<and> parent (heap t 0) = None
        \<and> HFsuccessor t 6 = Some (Some 2))"
  by code_simp

text \<open>
  Claim C3, amended. Let \<open>l\<close> be the last node of the current node's block and \<open>p\<close> the
  node before \<open>l\<close> in the sibling index. An iteration of the update loop swaps nothing in
  the tree when \<open>l\<close> is the current node, or when \<open>l\<close> is its parent or child while \<open>p\<close> is
  the current node, its parent or its child. Otherwise the current node is swapped, in the
  index and in the tree, with \<open>l\<close> if \<open>p\<close> is the current node, its parent or its child, and
  with \<open>p\<close> in every other case. The node swapped with is never the current node, its parent
  or its child. \<open>BLswap\<close> runs in every iteration.
\<close>

theorem update_step_rule:
  assumes "HFsuccessor t c = Some r"
  shows "\<exists>l. Blast (freq t) (blockList t) c = Some l
          \<and> r = (if l = c \<or> (near t c (Bprevious (blockList t) l) \<and> related t c l) then None
                 else if near t c (Bprevious (blockList t) l) then Some l
                 else Bprevious (blockList t) l)
          \<and> (case r of None \<Rightarrow> True | Some s \<Rightarrow> s \<noteq> c \<and> \<not> related t c s)
          \<and> HFupdate t (Some c) =
              (case r of
                 None \<Rightarrow> HFupdate (BLswap t c None) (parent (heap (BLswap t c None) c))
               | Some s \<Rightarrow>
                   (case HFswap (BLswap t c (Some s)) c s of
                      None \<Rightarrow> None
                    | Some t' \<Rightarrow> HFupdate t' (parent (heap t' c))))"
proof -
  from assms obtain l where l: "Blast (freq t) (blockList t) c = Some l"
    by (auto simp: HFsuccessor_def split: option.splits)
  let ?p = "Bprevious (blockList t) l"
  have r: "r = (if l = c \<or> (near t c ?p \<and> related t c l) then None
                 else if near t c ?p then Some l else ?p)"
    using assms l
    by (auto simp: HFsuccessor_def near_def Let_def split: option.splits if_splits)
  have s: "case r of None \<Rightarrow> True | Some s \<Rightarrow> s \<noteq> c \<and> \<not> related t c s"
    unfolding r by (auto simp: near_def related_def split: option.splits)
  have u: "HFupdate t (Some c) =
              (case r of
                 None \<Rightarrow> HFupdate (BLswap t c None) (parent (heap (BLswap t c None) c))
               | Some s \<Rightarrow>
                   (case HFswap (BLswap t c (Some s)) c s of
                      None \<Rightarrow> None
                    | Some t' \<Rightarrow> HFupdate t' (parent (heap t' c))))"
    using assms by (simp add: HFupdate_Some Let_def split: option.splits)
  from l r s u show ?thesis by blast
qed

text \<open>The first iteration after the first insertion: the leader is the parent.\<close>

theorem update_step_rule_witness:
  "(case HFadd (HFinit Map.empty) (AInt 5) of
      None \<Rightarrow> False
    | Some (t, c) \<Rightarrow>
        HFsuccessor t c = Some None \<and> Blast (freq t) (blockList t) c = Some 0
        \<and> related t c 0
        \<and> HFupdate t (Some c) = HFupdate (BLswap t c None) (parent (heap (BLswap t c None) c)))"
proof -
  obtain t c where a: "HFadd (HFinit Map.empty) (AInt 5) = Some (t, c)"
    and s: "HFsuccessor t c = Some None" and b: "Blast (freq t) (blockList t) c = Some 0"
    and r: "related t c 0"
  proof -
    have "(case HFadd (HFinit Map.empty) (AInt 5) of None \<Rightarrow> False
           | Some (t, c) \<Rightarrow> HFsuccessor t c = Some None \<and> Blast (freq t) (blockList t) c = Some 0
               \<and> related t c 0)"
      by code_simp
    then show ?thesis using that by (auto split: option.splits)
  qed
  from update_step_rule[OF s] have
    "HFupdate t (Some c) = HFupdate (BLswap t c None) (parent (heap (BLswap t c None) c))"
    by auto
  with a s b r show ?thesis by simp
qed

section \<open>The first symbol\<close>

lemma writeCode_root: "parent (heap t n) = None \<Longrightarrow> HFwriteCode bs t n = Some bs"
  by (subst HFwriteCode.simps) simp

lemma writeCode_child:
  "parent (heap t n) = Some p \<Longrightarrow>
   HFwriteCode bs t n =
     Option.bind (HFwriteCode bs t p) (\<lambda>fp'. Some (BSwriteBit fp' (high (heap t p) = Some n)))"
  by (subst HFwriteCode.simps) simp

lemma first_symbol:
  assumes "HTgetPtr tab x = None"
  shows "encode_term bs (HFinit tab) x lz = Some (0, lz (bs @ [Bit False]), after_first tab x 1)"
proof -
  have t: "terms (HFinit tab) = tab"
    by (simp add: HFinit_def)
  have w: "HFwriteCode bs (HFinit tab) (top (HFinit tab)) = Some (bs @ [Bit False])"
    by (simp add: HFinit_def writeCode_root writeCode_child BSwriteBit_def)
  have a: "HFadd (HFinit tab) x =
      Some (\<lparr>heap = (\<lambda>_. empty_node)
         (Suc 0 := \<lparr>high = None, low = None, parent = Some 0, frequency = 0, nterm = ESCAPE_SEQUENCE\<rparr>,
          2 := \<lparr>high = None, low = None, parent = Some 0, frequency = 0, nterm = x\<rparr>,
          0 := \<lparr>high = Some 2, low = Some (Suc 0), parent = None, frequency = 0, nterm = Null\<rparr>),
      nalloc = 3, codes = 0, top = Suc 0, terms = tab(x \<mapsto> Some 2), blockList = [Suc 0, 2, 0]\<rparr>, 2)"
    by (simp add: HFinit_def HFadd_def new_node_def Let_def HTstore_def
        HTsetPtr_def HTinsert_def BLinit_def)
  show ?thesis
    unfolding encode_term_def t w a using assms
    by (simp add: HFupdate_Some HFsuccessor_def freq_def related_def BLswap_def after_first_def)
qed

lemma same_symbol_again:
  "encode_term bs (after_first tab x 1) x lz = Some (1, bs @ [Bit True], after_first tab x 2)"
  apply (simp add: encode_term_def after_first_def writeCode_root writeCode_child BSwriteBit_def HTmember_def HTgetPtr_def)
  apply (simp add: HFupdate_Some HFsuccessor_def freq_def related_def BLswap_def after_first_def numeral_2_eq_2)
  done

text \<open>
  Claim C8. On an engine initialised with a table that holds no leaf for the symbol, the
  first symbol is written as the bit 0 followed by its literal, and the same symbol given
  again is written as the single bit 1.
\<close>

theorem first_bits_on_the_wire:
  assumes "HTgetPtr tab (table_key s) = None"
  shows "\<exists>t1 t2. HFencode bs (HFinit tab) s = Some (0, bs @ [Bit False, literal s], t1)
           \<and> HFencode bs' t1 s = Some (1, bs' @ [Bit True], t2)"
proof (cases s)
  case (TermSym trm)
  with first_symbol[OF assms, of bs] same_symbol_again[of bs' tab "table_key s"]
  show ?thesis
    by (auto simp: HFencodeATerm_def LZwriteATerm_def)
next
  case (IndexSym idx)
  with first_symbol[OF assms, of bs] same_symbol_again[of bs' tab "table_key s"]
  show ?thesis
    by (auto simp: HFencodeIndex_def LZwriteInt_def)
qed

text \<open>A term through an engine with an empty table, twice.\<close>

theorem first_bits_witness:
  "(case HFencode [] (HFinit Map.empty) (TermSym (Appl ''a'' [])) of
      None \<Rightarrow> False
    | Some (r, bs, t1) \<Rightarrow>
        r = 0 \<and> bs = [Bit False, LitTerm (Appl ''a'' [])]
        \<and> map_option (\<lambda>(r, bs, t2). (r, bs)) (HFencode [] t1 (TermSym (Appl ''a'' []))) = Some (1, [Bit True]))"
proof -
  have "HTgetPtr Map.empty (table_key (TermSym (Appl ''a'' []))) = None"
    by (simp add: HTgetPtr_def)
  from first_bits_on_the_wire[OF this, of "[]" "[]"]
  show ?thesis by auto
qed

section \<open>Insertion\<close>

lemma HFadd_normal:
  assumes "parent (heap t (top t)) = Some p"
    and "high (heap t p) \<noteq> None"
    and "top t < nalloc t" and "p < nalloc t" and "p \<noteq> top t"
  shows "HFadd t x = Some (normal_insert t p x, Suc (nalloc t))"
proof -
  have ne: "p \<noteq> nalloc t" "top t \<noteq> nalloc t" "p \<noteq> Suc (nalloc t)" "top t \<noteq> Suc (nalloc t)"
    using assms by auto
  obtain h where h: "high (heap t p) = Some h"
    using assms(2) by auto
  show ?thesis
    using assms(1,5) h ne
    apply (simp add: HFadd_def new_node_def)
    apply (simp add: Let_def set_parent_def HTstore_def HTsetPtr_def HTinsert_def normal_insert_def)
    done
qed

text \<open>
  Claim C4. When the parent \<open>p\<close> of the escape leaf has a high child, that is, when the
  escape leaf is not an only child (which it is only under the root, before the first
  insertion), \<open>HFadd\<close> allocates an internal node and a leaf. The internal node takes the
  escape leaf's place in \<open>p\<close> (the low slot if the escape leaf was there, the high slot
  otherwise) and carries the escape leaf's weight; its low child is the escape leaf, its
  high child the new leaf, of weight 0 and holding the symbol. The internal node is
  registered in the sibling index first, the leaf second, the symbol table points to
  the leaf, and the leaf is what \<open>HFadd\<close> returns. Nothing else changes.
\<close>

theorem normal_case_insertion:
  assumes "parent (heap t (top t)) = Some p"
    and "high (heap t p) \<noteq> None"
    and "top t < nalloc t" and "p < nalloc t" and "p \<noteq> top t"
  shows "\<exists>t'. HFadd t x = Some (t', Suc (nalloc t))
      \<and> heap t' (nalloc t) =
          \<lparr>high = Some (Suc (nalloc t)), low = Some (top t), parent = Some p,
           frequency = freq t (top t), nterm = Null\<rparr>
      \<and> heap t' (Suc (nalloc t)) =
          \<lparr>high = None, low = None, parent = Some (nalloc t), frequency = 0, nterm = x\<rparr>
      \<and> heap t' (top t) = (heap t (top t))\<lparr>parent := Some (nalloc t)\<rparr>
      \<and> heap t' p = (if low (heap t p) = Some (top t) then (heap t p)\<lparr>low := Some (nalloc t)\<rparr>
                     else (heap t p)\<lparr>high := Some (nalloc t)\<rparr>)
      \<and> (\<forall>n. n \<noteq> p \<and> n \<noteq> top t \<and> n \<noteq> nalloc t \<and> n \<noteq> Suc (nalloc t) \<longrightarrow> heap t' n = heap t n)
      \<and> blockList t' = BLinsert (BLinsert (blockList t) (nalloc t)) (Suc (nalloc t))
      \<and> HTgetPtr (terms t') x = Some (Suc (nalloc t))
      \<and> (\<forall>y. y \<noteq> x \<longrightarrow> terms t' y = terms t y)
      \<and> codes t' = codes t \<and> top t' = top t \<and> nalloc t' = Suc (Suc (nalloc t))"
proof -
  have ne: "p \<noteq> nalloc t" "top t \<noteq> nalloc t" "p \<noteq> Suc (nalloc t)" "top t \<noteq> Suc (nalloc t)"
    using assms by auto
  let ?t = "normal_insert t p x"
  have "heap ?t (nalloc t) =
          \<lparr>high = Some (Suc (nalloc t)), low = Some (top t), parent = Some p,
           frequency = freq t (top t), nterm = Null\<rparr>"
    by (simp add: normal_insert_def)
  moreover have "heap ?t (Suc (nalloc t)) =
          \<lparr>high = None, low = None, parent = Some (nalloc t), frequency = 0, nterm = x\<rparr>"
    by (simp add: normal_insert_def)
  moreover have "heap ?t (top t) = (heap t (top t))\<lparr>parent := Some (nalloc t)\<rparr>"
    using ne by (simp add: normal_insert_def)
  moreover have "heap ?t p = (if low (heap t p) = Some (top t) then (heap t p)\<lparr>low := Some (nalloc t)\<rparr>
                     else (heap t p)\<lparr>high := Some (nalloc t)\<rparr>)"
    using ne assms(5) by (simp add: normal_insert_def)
  moreover have "\<forall>n. n \<noteq> p \<and> n \<noteq> top t \<and> n \<noteq> nalloc t \<and> n \<noteq> Suc (nalloc t) \<longrightarrow> heap ?t n = heap t n"
    by (simp add: normal_insert_def)
  moreover have "blockList ?t = BLinsert (BLinsert (blockList t) (nalloc t)) (Suc (nalloc t))"
    by (simp add: normal_insert_def)
  moreover have "HTgetPtr (terms ?t) x = Some (Suc (nalloc t))"
    by (simp add: normal_insert_def HTgetPtr_def)
  moreover have "\<forall>y. y \<noteq> x \<longrightarrow> terms ?t y = terms t y"
    by (simp add: normal_insert_def)
  moreover have "codes ?t = codes t \<and> top ?t = top t \<and> nalloc ?t = Suc (Suc (nalloc t))"
    by (simp add: normal_insert_def)
  ultimately show ?thesis
    using HFadd_normal[OF assms, of x] by blast
qed

text \<open>The second insertion into a fresh engine.\<close>

theorem normal_case_insertion_witness:
  "(case HFencode [] (HFinit Map.empty) (IndexSym 1) of
      None \<Rightarrow> False
    | Some (r, bs, t) \<Rightarrow>
        (case HFadd t (AInt 2) of
           None \<Rightarrow> False
         | Some (t', leaf) \<Rightarrow>
             leaf = 4 \<and> nalloc t = 3 \<and> top t = 1
             \<and> heap t' 3 = \<lparr>high = Some 4, low = Some 1, parent = Some 0, frequency = 0, nterm = Null\<rparr>
             \<and> heap t' 4 = \<lparr>high = None, low = None, parent = Some 3, frequency = 0, nterm = AInt 2\<rparr>
             \<and> parent (heap t' 1) = Some 3 \<and> low (heap t' 0) = Some 3 \<and> high (heap t' 0) = Some 2
             \<and> blockList t = [1, 0, 2] \<and> blockList t' = [1, 4, 3, 0, 2]))"
proof -
  have "HFencode [] (HFinit Map.empty) (IndexSym 1) \<noteq> None"
    by code_simp
  then obtain r bs t where e: "HFencode [] (HFinit Map.empty) (IndexSym 1) = Some (r, bs, t)"
    by (cases "HFencode [] (HFinit Map.empty) (IndexSym 1)") auto
  have f: "(case HFencode [] (HFinit Map.empty) (IndexSym 1) of None \<Rightarrow> False
      | Some (r, bs, t) \<Rightarrow> parent (heap t (top t)) = Some 0 \<and> high (heap t 0) \<noteq> None
          \<and> top t < nalloc t \<and> 0 < nalloc t \<and> 0 \<noteq> top t \<and> nalloc t = 3 \<and> top t = 1
          \<and> freq t 1 = 0 \<and> low (heap t 0) = Some 1 \<and> high (heap t 0) = Some 2
          \<and> blockList t = [1, 0, 2])"
    by code_simp
  with e have p: "parent (heap t (top t)) = Some 0" "high (heap t 0) \<noteq> None"
      "top t < nalloc t" "0 < nalloc t" "0 \<noteq> top t"
    and v: "nalloc t = 3" "top t = 1" "freq t 1 = 0" "low (heap t 0) = Some 1" "high (heap t 0) = Some 2"
      "blockList t = [1, 0, 2]"
    by auto
  from normal_case_insertion[OF p, of "AInt 2"] obtain t' where
    "HFadd t (AInt 2) = Some (t', Suc (nalloc t))"
    "heap t' (nalloc t) =
          \<lparr>high = Some (Suc (nalloc t)), low = Some (top t), parent = Some 0,
           frequency = freq t (top t), nterm = Null\<rparr>"
    "heap t' (Suc (nalloc t)) =
          \<lparr>high = None, low = None, parent = Some (nalloc t), frequency = 0, nterm = AInt 2\<rparr>"
    "heap t' (top t) = (heap t (top t))\<lparr>parent := Some (nalloc t)\<rparr>"
    "heap t' 0 = (if low (heap t 0) = Some (top t) then (heap t 0)\<lparr>low := Some (nalloc t)\<rparr>
                     else (heap t 0)\<lparr>high := Some (nalloc t)\<rparr>)"
    "blockList t' = BLinsert (BLinsert (blockList t) (nalloc t)) (Suc (nalloc t))"
    by blast
  with e v show ?thesis
    by (simp add: eval_nat_numeral)
qed
section \<open>The update loop returns and keeps the engine well formed\<close>

lemma exchange_simps [simp]:
  "exchange a b a = b" "exchange a b b = a" "x \<noteq> a \<Longrightarrow> x \<noteq> b \<Longrightarrow> exchange a b x = x"
  by (auto simp: exchange_def)

section \<open>What \<open>BLswap\<close> and \<open>HFswap\<close> change\<close>

lemma BLswap_fields [simp]:
  "nalloc (BLswap t c r) = nalloc t" "codes (BLswap t c r) = codes t"
  "top (BLswap t c r) = top t" "terms (BLswap t c r) = terms t"
  "parent (heap (BLswap t c r) m) = parent (heap t m)"
  "low (heap (BLswap t c r) m) = low (heap t m)"
  "high (heap (BLswap t c r) m) = high (heap t m)"
  "nterm (heap (BLswap t c r) m) = nterm (heap t m)"
  by (simp_all add: BLswap_def Let_def)

lemma BLswap_freq: "freq (BLswap t c r) = (freq t)(c := Suc (freq t c))"
  by (auto simp: BLswap_def Let_def freq_def fun_eq_iff)

lemma BLswap_blockList:
  "blockList (BLswap t c r) =
     (let l1 = (case r of None \<Rightarrow> blockList t | Some s \<Rightarrow> map (exchange c s) (blockList t))
      in takeWhile (\<lambda>x. freq t x \<le> freq t c) (filter (\<lambda>x. x \<noteq> c) l1) @ [c]
         @ dropWhile (\<lambda>x. freq t x \<le> freq t c) (filter (\<lambda>x. x \<noteq> c) l1))"
  by (simp add: BLswap_def Let_def)

lemma BLswap_is_leaf [simp]: "is_leaf (BLswap t c r) m = is_leaf t m"
  by (simp add: is_leaf_def)

lemma set_slot_fields [simp]:
  "parent (heap (set_slot t sl n) m) = parent (heap t m)"
  "frequency (heap (set_slot t sl n) m) = frequency (heap t m)"
  "nterm (heap (set_slot t sl n) m) = nterm (heap t m)"
  "low (heap (set_slot t sl n) m) = (if sl = LowOf m then Some n else low (heap t m))"
  "high (heap (set_slot t sl n) m) = (if sl = HighOf m then Some n else high (heap t m))"
  "codes (set_slot t sl n) = (if sl = RootSlot then n else codes t)"
  "nalloc (set_slot t sl n) = nalloc t" "top (set_slot t sl n) = top t"
  "terms (set_slot t sl n) = terms t" "blockList (set_slot t sl n) = blockList t"
  by (cases sl; simp)+

lemma set_parent_fields [simp]:
  "parent (heap (set_parent t n p) m) = (if m = n then p else parent (heap t m))"
  "frequency (heap (set_parent t n p) m) = frequency (heap t m)"
  "nterm (heap (set_parent t n p) m) = nterm (heap t m)"
  "low (heap (set_parent t n p) m) = low (heap t m)"
  "high (heap (set_parent t n p) m) = high (heap t m)"
  "codes (set_parent t n p) = codes t"
  "nalloc (set_parent t n p) = nalloc t" "top (set_parent t n p) = top t"
  "terms (set_parent t n p) = terms t" "blockList (set_parent t n p) = blockList t"
  by (simp_all add: set_parent_def)

lemma run_last_decomp:
  "\<exists>mid post. xs = mid @ post \<and> (\<forall>m\<in>set mid. w m = w x) \<and> run_last w x xs = last (x # mid)
      \<and> (case post of [] \<Rightarrow> True | y # ys \<Rightarrow> w y \<noteq> w x)"
proof (induction xs arbitrary: x)
  case Nil
  show ?case by simp
next
  case (Cons y ys)
  show ?case
  proof (cases "w y = w x")
    case True
    from Cons[of y] obtain mid post where
      "ys = mid @ post" "\<forall>m\<in>set mid. w m = w y" "run_last w y ys = last (y # mid)"
      "case post of [] \<Rightarrow> True | z # zs \<Rightarrow> w z \<noteq> w y"
      by blast
    with True show ?thesis
      by (intro exI[of _ "y # mid"] exI[of _ post]) (auto split: list.splits)
  next
    case False
    then show ?thesis
      by (intro exI[of _ "[]"] exI[of _ "y # ys"]) auto
  qed
qed

lemma Blast_decomp:
  assumes "Blast w xs n = Some l"
  shows "\<exists>pre mid post. xs = pre @ n # mid @ post \<and> n \<notin> set pre \<and> (\<forall>m\<in>set mid. w m = w n)
      \<and> l = last (n # mid) \<and> (case post of [] \<Rightarrow> True | y # ys \<Rightarrow> w y \<noteq> w n)"
  using assms
proof (induction xs)
  case Nil
  then show ?case by simp
next
  case (Cons x xs)
  show ?case
  proof (cases "x = n")
    case True
    with Cons.prems have l: "l = run_last w n xs" by simp
    from run_last_decomp[of xs w n] obtain mid post where
      "xs = mid @ post" "\<forall>m\<in>set mid. w m = w n" "run_last w n xs = last (n # mid)"
      "case post of [] \<Rightarrow> True | y # ys \<Rightarrow> w y \<noteq> w n"
      by blast
    with True l show ?thesis
      by (intro exI[of _ "[]"] exI[of _ mid] exI[of _ post]) auto
  next
    case False
    with Cons.prems have "Blast w xs n = Some l" by simp
    from Cons.IH[OF this] obtain pre mid post where
      "xs = pre @ n # mid @ post" "n \<notin> set pre" "\<forall>m\<in>set mid. w m = w n"
      "l = last (n # mid)" "case post of [] \<Rightarrow> True | y # ys \<Rightarrow> w y \<noteq> w n"
      by blast
    with False show ?thesis
      by (intro exI[of _ "x # pre"] exI[of _ mid] exI[of _ post]) auto
  qed
qed

lemma Blast_total: "n \<in> set xs \<Longrightarrow> \<exists>l. Blast w xs n = Some l"
  by (induction xs) auto

lemma Bprevious_append:
  "l \<notin> set ys \<Longrightarrow> l \<noteq> p \<Longrightarrow> Bprevious (ys @ p # l # zs) l = Some p"
proof (induction ys)
  case Nil
  then show ?case by simp
next
  case (Cons y ys)
  then show ?case by (cases ys) auto
qed

text \<open>The node \<open>HFsuccessor\<close> returns stands behind the current node, in its block.\<close>

lemma HFsuccessor_behind:
  assumes "HFsuccessor t c = Some (Some s)" and "distinct (blockList t)"
  shows "\<exists>pre mid post. blockList t = pre @ c # mid @ post \<and> s \<in> set mid
           \<and> (\<forall>m\<in>set mid. freq t m = freq t c)"
proof -
  from assms(1) obtain l where l: "Blast (freq t) (blockList t) c = Some l"
    by (auto simp: HFsuccessor_def split: option.splits)
  from assms(1) l have ne: "l \<noteq> c"
    by (auto simp: HFsuccessor_def Let_def split: if_splits)
  from Blast_decomp[OF l] obtain pre mid post where
    d: "blockList t = pre @ c # mid @ post" "\<forall>m\<in>set mid. freq t m = freq t c" "l = last (c # mid)"
    by blast
  from d(3) ne have "mid \<noteq> []" by auto
  then obtain mid' where m: "mid = mid' @ [l]"
    using d(3) by (metis append_butlast_last_id last_ConsR)
  let ?q = "last (c # mid')"
  have q: "c # mid' = butlast (c # mid') @ [?q]" by simp
  have xs: "blockList t = (pre @ butlast (c # mid')) @ ?q # l # post"
    using d(1) m q by (metis append.assoc append_Cons append_Nil)
  have "l \<notin> set (pre @ butlast (c # mid'))" "l \<noteq> ?q"
    using assms(2) unfolding xs by auto
  from Bprevious_append[OF this] have b: "Bprevious (blockList t) l = Some ?q"
    using xs by simp
  have "?q \<in> set (c # mid')" by (rule last_in_set) simp
  then have qm: "?q = c \<or> ?q \<in> set mid" using m by auto
  from assms(1) l ne b have "s = l \<or> (s = ?q \<and> s \<noteq> c)"
    by (auto simp: HFsuccessor_def Let_def split: if_splits)
  with qm m have "s \<in> set mid" by auto
  with d show ?thesis by blast
qed

lemma HFsuccessor_total:
  "c \<in> set (blockList t) \<Longrightarrow> \<exists>r. HFsuccessor t c = Some r"
  using Blast_total[of c "blockList t" "freq t"]
  by (auto simp: HFsuccessor_def Let_def)

lemma HFsuccessor_unrelated:
  assumes "HFsuccessor t c = Some (Some s)"
  shows "s \<noteq> c \<and> parent (heap t c) \<noteq> Some s \<and> parent (heap t s) \<noteq> Some c"
  using assms
  by (auto simp: HFsuccessor_def Let_def related_def split: option.splits if_splits)

lemma exchange_inj: "inj (exchange a b)"
  by (auto simp: inj_def exchange_def split: if_splits)

lemma exchange_set:
  "a \<in> set xs \<Longrightarrow> b \<in> set xs \<Longrightarrow> set (map (exchange a b) xs) = set xs"
  by (auto simp: exchange_def image_iff split: if_splits)

lemma exchange_distinct: "distinct xs \<Longrightarrow> distinct (map (exchange a b) xs)"
  by (simp add: distinct_map inj_on_subset[OF exchange_inj])

lemma exchange_weights: "w a = w b \<Longrightarrow> map w (map (exchange a b) xs) = map w xs"
  by (auto simp: exchange_def)

lemma exchange_visited_first:
  assumes "sorted_wrt (\<lambda>x y. w x = w y \<longrightarrow> y \<in> V \<longrightarrow> x \<in> V) xs"
    and "w a = w b" and "a \<notin> V" and "b \<notin> V"
  shows "sorted_wrt (\<lambda>x y. w x = w y \<longrightarrow> y \<in> V \<longrightarrow> x \<in> V) (map (exchange a b) xs)"
proof -
  have step: "w (exchange a b x) = w (exchange a b y) \<longrightarrow> exchange a b y \<in> V \<longrightarrow> exchange a b x \<in> V"
    if "w x = w y \<longrightarrow> y \<in> V \<longrightarrow> x \<in> V" for x y
  proof (intro impI)
    assume e: "w (exchange a b x) = w (exchange a b y)" and v: "exchange a b y \<in> V"
    from v assms(3,4) have y: "y \<noteq> a" "y \<noteq> b"
      by (auto simp: exchange_def split: if_splits)
    with v have yv: "y \<in> V" by simp
    have "w (exchange a b x) = w x"
      using assms(2) by (auto simp: exchange_def)
    with e y have "w x = w y" by simp
    with that yv have xv: "x \<in> V" by simp
    with assms(3,4) have "x \<noteq> a" "x \<noteq> b" by auto
    with xv show "exchange a b x \<in> V" by simp
  qed
  have "sorted_wrt (\<lambda>x y. w (exchange a b x) = w (exchange a b y)
          \<longrightarrow> exchange a b y \<in> V \<longrightarrow> exchange a b x \<in> V) xs"
    by (rule sorted_wrt_mono_rel[OF _ assms(1)]) (rule step)
  then show ?thesis by (simp add: sorted_wrt_map)
qed

text \<open>Taking a node out of the order and seating it behind the nodes of weight up to \<open>k\<close>.\<close>

lemma reseat_set:
  assumes "c \<in> set xs"
  shows "set (takeWhile P (filter (\<lambda>x. x \<noteq> c) xs) @ [c] @ dropWhile P (filter (\<lambda>x. x \<noteq> c) xs)) = set xs"
proof -
  have "set (takeWhile P (filter (\<lambda>x. x \<noteq> c) xs)) \<union> set (dropWhile P (filter (\<lambda>x. x \<noteq> c) xs))
        = set (filter (\<lambda>x. x \<noteq> c) xs)"
    by (metis set_append takeWhile_dropWhile_id)
  with assms show ?thesis by auto
qed

lemma split_at_weight:
  "\<exists>tw dw. takeWhile P r = tw \<and> dropWhile P r = dw \<and> r = tw @ dw"
  by simp

lemma reseat_distinct:
  assumes "distinct xs"
  shows "distinct (takeWhile P (filter (\<lambda>x. x \<noteq> c) xs) @ [c] @ dropWhile P (filter (\<lambda>x. x \<noteq> c) xs))"
proof -
  obtain tw dw where s: "takeWhile P (filter (\<lambda>x. x \<noteq> c) xs) = tw"
    "dropWhile P (filter (\<lambda>x. x \<noteq> c) xs) = dw" "filter (\<lambda>x. x \<noteq> c) xs = tw @ dw"
    using split_at_weight by blast
  have "distinct (tw @ dw)" "c \<notin> set (tw @ dw)"
    using assms unfolding s(3)[symmetric] by auto
  then show ?thesis unfolding s(1,2) by auto
qed

lemma dropWhile_sorted_above:
  assumes "sorted (map w xs)" and "x \<in> set (dropWhile (\<lambda>x. w x \<le> k) xs)"
  shows "k < w x"
  using assms
proof (induction xs)
  case Nil
  then show ?case by simp
next
  case (Cons y ys)
  show ?case
  proof (cases "w y \<le> k")
    case True
    with Cons show ?thesis by simp
  next
    case False
    with Cons.prems show ?thesis by auto
  qed
qed

lemma reseat_sorted:
  assumes "sorted (map w xs)"
  shows "sorted (map (w(c := Suc k))
           (takeWhile (\<lambda>x. w x \<le> k) (filter (\<lambda>x. x \<noteq> c) xs) @ [c]
            @ dropWhile (\<lambda>x. w x \<le> k) (filter (\<lambda>x. x \<noteq> c) xs)))"
proof -
  let ?w = "w(c := Suc k)"
  have sr: "sorted (map w (filter (\<lambda>x. x \<noteq> c) xs))"
    using assms by (rule sorted_filter)
  have a: "\<forall>x\<in>set (takeWhile (\<lambda>x. w x \<le> k) (filter (\<lambda>x. x \<noteq> c) xs)). w x \<le> k"
    by (auto dest: set_takeWhileD)
  have b: "\<forall>x\<in>set (dropWhile (\<lambda>x. w x \<le> k) (filter (\<lambda>x. x \<noteq> c) xs)). k < w x"
    using dropWhile_sorted_above[OF sr] by auto
  obtain tw dw where s: "takeWhile (\<lambda>x. w x \<le> k) (filter (\<lambda>x. x \<noteq> c) xs) = tw"
    "dropWhile (\<lambda>x. w x \<le> k) (filter (\<lambda>x. x \<noteq> c) xs) = dw" "filter (\<lambda>x. x \<noteq> c) xs = tw @ dw"
    using split_at_weight by blast
  have "c \<notin> set (tw @ dw)"
    unfolding s(3)[symmetric] by simp
  then have nc: "c \<notin> set tw" "c \<notin> set dw"
    by auto
  have "sorted (map w tw @ map w dw)"
    using sr unfolding s(3) by simp
  then have s12: "sorted (map w tw)" "sorted (map w dw)"
    by (auto simp: sorted_append)
  have t1: "map ?w tw = map w tw"
    using nc by (intro map_cong) auto
  have t2: "map ?w dw = map w dw"
    using nc by (intro map_cong) auto
  from a b have ab: "\<forall>x\<in>set tw. w x \<le> k" "\<forall>x\<in>set dw. k < w x"
    unfolding s(1,2) by auto
  have "sorted (map w tw @ [Suc k] @ map w dw)"
    using s12 ab by (fastforce simp: sorted_append)
  then show ?thesis
    unfolding s(1,2) by (simp add: t1 t2)
qed

lemma reseat_visited_first:
  assumes "sorted_wrt (\<lambda>x y. w x = w y \<longrightarrow> y \<in> V \<longrightarrow> x \<in> V) xs"
  shows "sorted_wrt (\<lambda>x y. (w(c := Suc k)) x = (w(c := Suc k)) y \<longrightarrow> y \<in> insert c V \<longrightarrow> x \<in> insert c V)
           (takeWhile (\<lambda>x. w x \<le> k) (filter (\<lambda>x. x \<noteq> c) xs) @ [c]
            @ dropWhile (\<lambda>x. w x \<le> k) (filter (\<lambda>x. x \<noteq> c) xs))"
proof -
  let ?R = "\<lambda>x y. w x = w y \<longrightarrow> y \<in> V \<longrightarrow> x \<in> V"
  let ?R' = "\<lambda>x y. (w(c := Suc k)) x = (w(c := Suc k)) y \<longrightarrow> y \<in> insert c V \<longrightarrow> x \<in> insert c V"
  have a: "\<forall>x\<in>set (takeWhile (\<lambda>x. w x \<le> k) (filter (\<lambda>x. x \<noteq> c) xs)). w x \<le> k"
    by (auto dest: set_takeWhileD)
  obtain tw dw where s: "takeWhile (\<lambda>x. w x \<le> k) (filter (\<lambda>x. x \<noteq> c) xs) = tw"
    "dropWhile (\<lambda>x. w x \<le> k) (filter (\<lambda>x. x \<noteq> c) xs) = dw" "filter (\<lambda>x. x \<noteq> c) xs = tw @ dw"
    using split_at_weight by blast
  have "c \<notin> set (tw @ dw)"
    unfolding s(3)[symmetric] by simp
  then have nc: "c \<notin> set tw" "c \<notin> set dw"
    by auto
  have "sorted_wrt ?R (tw @ dw)"
    using sorted_wrt_filter[OF assms, of "\<lambda>x. x \<noteq> c"] unfolding s(3) .
  then have r: "sorted_wrt ?R tw" "sorted_wrt ?R dw" "\<forall>x\<in>set tw. \<forall>y\<in>set dw. ?R x y"
    by (auto simp: sorted_wrt_append)
  have up: "?R' x y" if "?R x y" "x \<noteq> c" "y \<noteq> c" for x y
    using that by auto
  have 1: "sorted_wrt ?R' tw"
    by (rule sorted_wrt_mono_rel[OF _ r(1)]) (use nc in \<open>auto\<close>)
  have 2: "sorted_wrt ?R' dw"
    by (rule sorted_wrt_mono_rel[OF _ r(2)]) (use nc in \<open>auto\<close>)
  have 3: "\<forall>x\<in>set tw. ?R' x c"
    using nc a unfolding s(1,2) by auto
  have 4: "\<forall>y\<in>set dw. ?R' c y"
    by auto
  have 5: "\<forall>x\<in>set tw. \<forall>y\<in>set dw. ?R' x y"
    using r(3) nc by auto
  from 1 2 3 4 5 show ?thesis
    unfolding s(1,2) by (simp add: sorted_wrt_append)
qed

lemma HFswap_fields:
  assumes "slot_of t c = Some sl1" and "slot_of t s = Some sl2" and "c \<noteq> s"
  shows "\<exists>t'. HFswap t c s = Some t'
     \<and> (\<forall>m. parent (heap t' m) =
             (if m = c then parent (heap t s) else if m = s then parent (heap t c)
              else parent (heap t m)))
     \<and> (\<forall>m. low (heap t' m) =
             (if sl2 = LowOf m then Some c else if sl1 = LowOf m then Some s else low (heap t m)))
     \<and> (\<forall>m. high (heap t' m) =
             (if sl2 = HighOf m then Some c else if sl1 = HighOf m then Some s else high (heap t m)))
     \<and> codes t' = (if sl2 = RootSlot then c else if sl1 = RootSlot then s else codes t)
     \<and> (\<forall>m. frequency (heap t' m) = frequency (heap t m))
     \<and> (\<forall>m. nterm (heap t' m) = nterm (heap t m))
     \<and> nalloc t' = nalloc t \<and> top t' = top t \<and> terms t' = terms t \<and> blockList t' = blockList t"
  using assms by (simp add: HFswap_def Let_def)

lemma links_node:
  assumes "links_ok t" and "m \<in> nodes t"
  shows "case parent (heap t m) of
           None \<Rightarrow> m = codes t
         | Some p \<Rightarrow> p \<in> nodes t \<and> (low (heap t p) = Some m \<or> high (heap t p) = Some m)"
  using assms unfolding links_ok_def by blast

lemma links_parent:
  assumes "links_ok t" and "m \<in> nodes t" and "parent (heap t m) = Some p"
  shows "p \<in> nodes t \<and> (low (heap t p) = Some m \<or> high (heap t p) = Some m)"
  using links_node[OF assms(1,2)] assms(3) by simp

lemma links_root:
  assumes "links_ok t" and "m \<in> nodes t" and "parent (heap t m) = None"
  shows "m = codes t"
  using links_node[OF assms(1,2)] assms(3) by simp

lemma links_child:
  assumes "links_ok t" and "p \<in> nodes t" and "low (heap t p) = Some m \<or> high (heap t p) = Some m"
  shows "m \<in> nodes t \<and> parent (heap t m) = Some p"
  using assms unfolding links_ok_def by blast

lemma links_two:
  assumes "links_ok t" and "p \<in> nodes t"
  shows "(low (heap t p) = None) = (high (heap t p) = None)"
    and "low (heap t p) \<noteq> None \<Longrightarrow> low (heap t p) \<noteq> high (heap t p)"
  using assms unfolding links_ok_def by blast+

lemma links_basic:
  assumes "links_ok t"
  shows "codes t \<in> nodes t" "parent (heap t (codes t)) = None" "top t \<noteq> codes t"
    "is_leaf t (top t)" "nterm (heap t (top t)) = ESCAPE_SEQUENCE"
  using assms unfolding links_ok_def by blast+

lemma slot_of_node:
  assumes "links_ok t" and "m \<in> nodes t"
  shows "\<exists>sl. slot_of t m = Some sl
     \<and> (sl = RootSlot \<longleftrightarrow> m = codes t)
     \<and> (\<forall>p. sl = LowOf p \<longleftrightarrow> parent (heap t m) = Some p \<and> low (heap t p) = Some m)
     \<and> (\<forall>p. sl = HighOf p \<longleftrightarrow> parent (heap t m) = Some p \<and> high (heap t p) = Some m)"
proof (cases "m = codes t")
  case True
  with links_basic(2)[OF assms(1)] show ?thesis
    by (simp add: slot_of_def)
next
  case False
  with links_root[OF assms] obtain p where p: "parent (heap t m) = Some p"
    by (cases "parent (heap t m)") auto
  from links_parent[OF assms p] have pn: "p \<in> nodes t"
    and lh: "low (heap t p) = Some m \<or> high (heap t p) = Some m"
    by auto
  from links_two(2)[OF assms(1) pn] lh
  have "\<not> (low (heap t p) = Some m \<and> high (heap t p) = Some m)"
    by auto
  with False p lh show ?thesis
    by (auto simp: slot_of_def)
qed

text \<open>
  In a well-linked tree \<open>HFswap\<close> returns, and what it returns is the tree with the two
  nodes exchanged in every child slot and in the root pointer, and with their parent
  pointers exchanged.
\<close>

lemma HFswap_char:
  assumes l: "links_ok t" and c: "c \<in> nodes t" and s: "s \<in> nodes t" and ne: "c \<noteq> s"
  shows "\<exists>t'. HFswap t c s = Some t'
     \<and> (\<forall>m. parent (heap t' m) =
             (if m = c then parent (heap t s) else if m = s then parent (heap t c)
              else parent (heap t m)))
     \<and> (\<forall>m\<in>nodes t. low (heap t' m) = map_option (exchange c s) (low (heap t m)))
     \<and> (\<forall>m\<in>nodes t. high (heap t' m) = map_option (exchange c s) (high (heap t m)))
     \<and> codes t' = exchange c s (codes t)
     \<and> (\<forall>m. frequency (heap t' m) = frequency (heap t m))
     \<and> (\<forall>m. nterm (heap t' m) = nterm (heap t m))
     \<and> nalloc t' = nalloc t \<and> top t' = top t \<and> terms t' = terms t \<and> blockList t' = blockList t"
proof -
  from slot_of_node[OF l c] obtain sl1 where sl1: "slot_of t c = Some sl1"
    "sl1 = RootSlot \<longleftrightarrow> c = codes t"
    "\<And>p. sl1 = LowOf p \<longleftrightarrow> parent (heap t c) = Some p \<and> low (heap t p) = Some c"
    "\<And>p. sl1 = HighOf p \<longleftrightarrow> parent (heap t c) = Some p \<and> high (heap t p) = Some c"
    by blast
  from slot_of_node[OF l s] obtain sl2 where sl2: "slot_of t s = Some sl2"
    "sl2 = RootSlot \<longleftrightarrow> s = codes t"
    "\<And>p. sl2 = LowOf p \<longleftrightarrow> parent (heap t s) = Some p \<and> low (heap t p) = Some s"
    "\<And>p. sl2 = HighOf p \<longleftrightarrow> parent (heap t s) = Some p \<and> high (heap t p) = Some s"
    by blast
  from HFswap_fields[OF sl1(1) sl2(1) ne] obtain t' where t':
    "HFswap t c s = Some t'"
    "\<And>m. parent (heap t' m) =
             (if m = c then parent (heap t s) else if m = s then parent (heap t c)
              else parent (heap t m))"
    "\<And>m. low (heap t' m) =
             (if sl2 = LowOf m then Some c else if sl1 = LowOf m then Some s else low (heap t m))"
    "\<And>m. high (heap t' m) =
             (if sl2 = HighOf m then Some c else if sl1 = HighOf m then Some s else high (heap t m))"
    "codes t' = (if sl2 = RootSlot then c else if sl1 = RootSlot then s else codes t)"
    "\<And>m. frequency (heap t' m) = frequency (heap t m)"
    "\<And>m. nterm (heap t' m) = nterm (heap t m)"
    "nalloc t' = nalloc t" "top t' = top t" "terms t' = terms t" "blockList t' = blockList t"
    by blast
  have lo: "low (heap t' m) = map_option (exchange c s) (low (heap t m))" if m: "m \<in> nodes t" for m
  proof (cases "low (heap t m)")
    case None
    then show ?thesis
      unfolding t'(3) sl1(3) sl2(3) by simp
  next
    case (Some x)
    from links_child[OF l m] Some have px: "parent (heap t x) = Some m" by simp
    show ?thesis
      unfolding t'(3) sl1(3) sl2(3) using Some px ne
      by (auto simp: exchange_def)
  qed
  have hi: "high (heap t' m) = map_option (exchange c s) (high (heap t m))" if m: "m \<in> nodes t" for m
  proof (cases "high (heap t m)")
    case None
    then show ?thesis
      unfolding t'(4) sl1(4) sl2(4) by simp
  next
    case (Some x)
    from links_child[OF l m] Some have px: "parent (heap t x) = Some m" by simp
    show ?thesis
      unfolding t'(4) sl1(4) sl2(4) using Some px ne
      by (auto simp: exchange_def)
  qed
  have co: "codes t' = exchange c s (codes t)"
    unfolding t'(5) sl1(2) sl2(2) using ne by (auto simp: exchange_def)
  from t'(1,2,6-11) lo hi co show ?thesis
    by blast
qed

lemma exchange_eq_iff [simp]: "exchange a b x = exchange a b y \<longleftrightarrow> x = y"
  by (auto simp: exchange_def split: if_splits)

lemma exchange_eq_left: "a \<noteq> b \<Longrightarrow> exchange a b x = a \<longleftrightarrow> x = b"
  by (auto simp: exchange_def)

lemma exchange_eq_right: "a \<noteq> b \<Longrightarrow> exchange a b x = b \<longleftrightarrow> x = a"
  by (auto simp: exchange_def)

text \<open>A well-linked tree stays well linked when two of its nodes change places.\<close>

lemma links_exchange:
  assumes l: "links_ok t" and c: "c \<in> nodes t" and s: "s \<in> nodes t"
    and tn: "top t \<in> nodes t"
    and ct: "c \<noteq> top t" and st: "s = top t \<longrightarrow> c \<noteq> codes t"
    and n: "nodes t' = nodes t" and tp: "top t' = top t"
    and co: "codes t' = exchange c s (codes t)"
    and pa: "\<And>m. parent (heap t' m) =
             (if m = c then parent (heap t s) else if m = s then parent (heap t c)
              else parent (heap t m))"
    and lo: "\<And>m. m \<in> nodes t \<Longrightarrow> low (heap t' m) = map_option (exchange c s) (low (heap t m))"
    and hi: "\<And>m. m \<in> nodes t \<Longrightarrow> high (heap t' m) = map_option (exchange c s) (high (heap t m))"
    and nt: "\<And>m. nterm (heap t' m) = nterm (heap t m)"
  shows "links_ok t'"
proof -
  note b = links_basic[OF l]
  have ex_nodes: "exchange c s x \<in> nodes t" if "x \<in> nodes t" for x
    using that c s by (auto simp: exchange_def)
  have 1: "codes t' \<in> nodes t'"
    unfolding co n using b(1) by (rule ex_nodes)
  have 2: "parent (heap t' (codes t')) = None"
    unfolding co pa using b(2) by (auto simp: exchange_def)
  have 3: "top t' \<noteq> codes t'"
    unfolding co tp using b(3) ct st by (auto simp: exchange_def)
  have 4: "is_leaf t' (top t')"
    using b(4) lo[OF tn] hi[OF tn] unfolding tp is_leaf_def by simp
  have 5: "nterm (heap t' (top t')) = ESCAPE_SEQUENCE"
    unfolding tp nt by (rule b(5))
  have 6: "case parent (heap t' m) of
             None \<Rightarrow> m = codes t'
           | Some p \<Rightarrow> p \<in> nodes t' \<and> (low (heap t' p) = Some m \<or> high (heap t' p) = Some m)"
    if m: "m \<in> nodes t'" for m
  proof -
    from m have mn: "m \<in> nodes t" by (simp add: n)
    let ?m0 = "exchange c s m"
    have m0: "?m0 \<in> nodes t" using mn by (rule ex_nodes)
    have pm: "parent (heap t' m) = parent (heap t ?m0)"
      unfolding pa by (auto simp: exchange_def)
    show ?thesis
    proof (cases "parent (heap t ?m0)")
      case None
      from links_root[OF l m0 None] have "exchange c s m = codes t" .
      then have "m = exchange c s (codes t)"
        by (metis exchange_def)
      with None show ?thesis unfolding pm co by simp
    next
      case (Some p)
      from links_parent[OF l m0 Some] have pn: "p \<in> nodes t"
        and lh: "low (heap t p) = Some ?m0 \<or> high (heap t p) = Some ?m0"
        by auto
      have "exchange c s ?m0 = m"
        by (auto simp: exchange_def)
      with lh have "low (heap t' p) = Some m \<or> high (heap t' p) = Some m"
        unfolding lo[OF pn] hi[OF pn] by auto
      with Some pn show ?thesis unfolding pm n by simp
    qed
  qed
  have 7: "m \<in> nodes t' \<and> parent (heap t' m) = Some p"
    if p: "p \<in> nodes t'" and ch: "low (heap t' p) = Some m \<or> high (heap t' p) = Some m" for p m
  proof -
    from p have pn: "p \<in> nodes t" by (simp add: n)
    from ch obtain x where x: "low (heap t p) = Some x \<or> high (heap t p) = Some x"
      and mx: "m = exchange c s x"
      unfolding lo[OF pn] hi[OF pn] by auto
    from links_child[OF l pn x] have xn: "x \<in> nodes t" and px: "parent (heap t x) = Some p"
      by auto
    have "parent (heap t' m) = parent (heap t x)"
      unfolding pa mx by (auto simp: exchange_def)
    with px ex_nodes[OF xn] show ?thesis
      unfolding mx n by simp
  qed
  have 8: "(low (heap t' p) = None) = (high (heap t' p) = None)" if p: "p \<in> nodes t'" for p
    using links_two(1)[OF l, of p] p unfolding n by (simp add: lo hi)
  have 9: "low (heap t' p) \<noteq> high (heap t' p)"
    if p: "p \<in> nodes t'" and nn: "low (heap t' p) \<noteq> None" for p
  proof -
    from p have pn: "p \<in> nodes t" by (simp add: n)
    from nn have "low (heap t p) \<noteq> None" unfolding lo[OF pn] by simp
    from links_two(2)[OF l pn this] show ?thesis
      unfolding lo[OF pn] hi[OF pn]
      by (cases "low (heap t p)"; cases "high (heap t p)") auto
  qed
  show ?thesis
    unfolding links_ok_def
    using 1 2 3 4 5 6 7 8 9 by blast
qed

lemma exchange_same [simp]: "exchange c c = (\<lambda>x. x)"
  by (auto simp: exchange_def fun_eq_iff)

lemma update_invD:
  assumes "update_inv t cur V r"
  shows "order_ok t" "links_ok t" "table_ok t" "weights_ok t cur (V \<noteq> {})"
    and "\<And>c. cur = Some c \<Longrightarrow> c \<in> nodes t \<and> c \<noteq> top t \<and> (V = {} \<longrightarrow> is_leaf t c)
            \<and> (\<forall>v\<in>V. r v < r c)
            \<and> (freq t c = 0 \<longrightarrow> parent (heap t (top t)) = parent (heap t c)
                  \<or> parent (heap t (top t)) = Some c)"
    and "\<And>m. m \<in> nodes t \<Longrightarrow> freq t m = 0 \<Longrightarrow> m = top t \<or> cur = Some m
            \<or> (\<exists>c. cur = Some c \<and> freq t c = 0 \<and> parent (heap t c) = Some m
                  \<and> parent (heap t (top t)) = Some m)"
    and "\<And>m p. m \<in> nodes t \<Longrightarrow> parent (heap t m) = Some p \<Longrightarrow> r m < r p"
    and "\<And>m m'. m \<in> nodes t \<Longrightarrow> m' \<in> nodes t \<Longrightarrow> odd (r m) \<Longrightarrow> r m = r m' \<Longrightarrow> m = m'"
    and "\<And>m. m \<in> nodes t \<Longrightarrow> freq t m = r m div 2 + (if m \<in> V then 1 else 0)"
    and "sorted_wrt (\<lambda>a b. freq t a = freq t b \<longrightarrow> b \<in> V \<longrightarrow> a \<in> V) (blockList t)"
  using assms unfolding update_inv_def by blast+

lemma order_okD:
  assumes "order_ok t"
  shows "distinct (blockList t)" "\<And>n. n \<in> nodes t \<Longrightarrow> n < nalloc t"
    "sorted (map (freq t) (blockList t))" "top t \<in> nodes t" "freq t (top t) = 0"
  using assms unfolding order_ok_def by blast+

lemma links_ok_cong:
  assumes "links_ok t" and "nodes t' = nodes t" and "codes t' = codes t" and "top t' = top t"
    and "\<And>m. parent (heap t' m) = parent (heap t m)"
    and "\<And>m. low (heap t' m) = low (heap t m)"
    and "\<And>m. high (heap t' m) = high (heap t m)"
    and "\<And>m. nterm (heap t' m) = nterm (heap t m)"
  shows "links_ok t'"
  using assms(1) unfolding links_ok_def is_leaf_def assms(2-8) .

lemma BLswap_nodes:
  assumes "c \<in> nodes t" and "case r of None \<Rightarrow> True | Some s \<Rightarrow> s \<in> nodes t"
  shows "nodes (BLswap t c r) = nodes t"
proof -
  let ?l1 = "case r of None \<Rightarrow> blockList t | Some s \<Rightarrow> map (exchange c s) (blockList t)"
  have s1: "set ?l1 = set (blockList t)"
  proof (cases r)
    case None
    then show ?thesis by simp
  next
    case (Some s)
    with assms exchange_set[of c "blockList t" s] show ?thesis
      by (simp add: nodes_def)
  qed
  then have "c \<in> set ?l1" using assms(1) by (simp add: nodes_def)
  from reseat_set[OF this] s1 show ?thesis
    unfolding nodes_def BLswap_blockList Let_def by simp
qed

text \<open>One iteration of the update loop, with \<open>s = c\<close> when nothing is swapped.\<close>

lemma iteration_char:
  assumes inv: "update_inv t (Some c) V r"
  shows "\<exists>t' s. HFupdate t (Some c) = HFupdate t' (parent (heap t' c))
     \<and> s \<in> nodes t \<and> freq t s = freq t c \<and> s \<notin> V
     \<and> (s \<noteq> c \<longrightarrow> parent (heap t c) \<noteq> Some s \<and> parent (heap t s) \<noteq> Some c)
     \<and> blockList t' =
          takeWhile (\<lambda>x. freq t x \<le> freq t c) (filter (\<lambda>x. x \<noteq> c) (map (exchange c s) (blockList t)))
          @ [c] @
          dropWhile (\<lambda>x. freq t x \<le> freq t c) (filter (\<lambda>x. x \<noteq> c) (map (exchange c s) (blockList t)))
     \<and> nodes t' = nodes t
     \<and> freq t' = (freq t)(c := Suc (freq t c))
     \<and> (\<forall>m. parent (heap t' m) =
             (if m = c then parent (heap t s) else if m = s then parent (heap t c)
              else parent (heap t m)))
     \<and> (\<forall>m\<in>nodes t. low (heap t' m) = map_option (exchange c s) (low (heap t m)))
     \<and> (\<forall>m\<in>nodes t. high (heap t' m) = map_option (exchange c s) (high (heap t m)))
     \<and> codes t' = exchange c s (codes t)
     \<and> (\<forall>m. nterm (heap t' m) = nterm (heap t m))
     \<and> nalloc t' = nalloc t \<and> top t' = top t \<and> terms t' = terms t"
proof -
  note d = update_invD[OF inv]
  note o = order_okD[OF d(1)]
  from d(5)[OF refl] have cn: "c \<in> nodes t" and cv: "c \<notin> V"
    by auto
  from HFsuccessor_total[of c t] cn obtain ro where ro: "HFsuccessor t c = Some ro"
    by (auto simp: nodes_def)
  show ?thesis
  proof (cases ro)
    case None
    let ?t' = "BLswap t c None"
    have u: "HFupdate t (Some c) = HFupdate ?t' (parent (heap ?t' c))"
      using ro None by (simp add: HFupdate_Some Let_def)
    have n: "nodes ?t' = nodes t"
      by (rule BLswap_nodes) (use cn in auto)
    show ?thesis
      apply (rule exI[of _ ?t'], rule exI[of _ c])
      using u cn cv n
      apply (simp add: BLswap_freq)
      apply (simp add: BLswap_blockList Let_def option.map_ident)
      done
  next
    case (Some s)
    from ro Some have su: "HFsuccessor t c = Some (Some s)" by simp
    from HFsuccessor_behind[OF su o(1)] obtain pre mid post where
      b: "blockList t = pre @ c # mid @ post" "s \<in> set mid" "\<forall>m\<in>set mid. freq t m = freq t c"
      by blast
    from b have sn: "s \<in> nodes t" and sw: "freq t s = freq t c"
      by (auto simp: nodes_def)
    from d(10) b(2) have "freq t c = freq t s \<longrightarrow> s \<in> V \<longrightarrow> c \<in> V"
      unfolding b(1) by (auto simp: sorted_wrt_append)
    with sw cv have sv: "s \<notin> V" by auto
    note un = HFsuccessor_unrelated[OF su]
    let ?tb = "BLswap t c (Some s)"
    have n: "nodes ?tb = nodes t"
      by (rule BLswap_nodes) (use cn sn in auto)
    have lb: "links_ok ?tb"
      by (rule links_ok_cong[OF d(2) n]) simp_all
    from HFswap_char[OF lb, of c s] cn sn un n obtain t' where t':
      "HFswap ?tb c s = Some t'"
      "\<And>m. parent (heap t' m) =
             (if m = c then parent (heap ?tb s) else if m = s then parent (heap ?tb c)
              else parent (heap ?tb m))"
      "\<And>m. m \<in> nodes t \<Longrightarrow> low (heap t' m) = map_option (exchange c s) (low (heap ?tb m))"
      "\<And>m. m \<in> nodes t \<Longrightarrow> high (heap t' m) = map_option (exchange c s) (high (heap ?tb m))"
      "codes t' = exchange c s (codes ?tb)"
      "\<And>m. frequency (heap t' m) = frequency (heap ?tb m)"
      "\<And>m. nterm (heap t' m) = nterm (heap ?tb m)"
      "nalloc t' = nalloc ?tb" "top t' = top ?tb" "terms t' = terms ?tb"
      "blockList t' = blockList ?tb"
      by auto
    have u: "HFupdate t (Some c) = HFupdate t' (parent (heap t' c))"
      using su t'(1) by (simp add: HFupdate_Some)
    have f: "freq t' = (freq t)(c := Suc (freq t c))"
      using t'(6) BLswap_freq[of t c "Some s"] by (auto simp: freq_def fun_eq_iff)
    have n': "nodes t' = nodes t"
      using n t'(11) by (simp add: nodes_def)
    show ?thesis
      apply (rule exI[of _ t'], rule exI[of _ s])
      using u sn sw sv un f n' t'(2-5,7-10)
      apply (simp add: t'(11) BLswap_blockList Let_def)
      done
  qed
qed

lemma same_half:
  fixes a b p :: nat
  assumes "a div 2 = b div 2" and "b < p" and "p \<le> a"
  shows "p = a \<and> odd a"
  using assms by presburger

lemma iteration_inv:
  assumes inv: "update_inv t (Some c) V r"
    and sn: "s \<in> nodes t" and sw: "freq t s = freq t c" and sv: "s \<notin> V"
    and un: "s \<noteq> c \<longrightarrow> parent (heap t c) \<noteq> Some s \<and> parent (heap t s) \<noteq> Some c"
    and bl: "blockList t' =
          takeWhile (\<lambda>x. freq t x \<le> freq t c) (filter (\<lambda>x. x \<noteq> c) (map (exchange c s) (blockList t)))
          @ [c] @
          dropWhile (\<lambda>x. freq t x \<le> freq t c) (filter (\<lambda>x. x \<noteq> c) (map (exchange c s) (blockList t)))"
    and n: "nodes t' = nodes t"
    and f: "freq t' = (freq t)(c := Suc (freq t c))"
    and pa0: "\<forall>m. parent (heap t' m) =
             (if m = c then parent (heap t s) else if m = s then parent (heap t c)
              else parent (heap t m))"
    and lo0: "\<forall>m\<in>nodes t. low (heap t' m) = map_option (exchange c s) (low (heap t m))"
    and hi0: "\<forall>m\<in>nodes t. high (heap t' m) = map_option (exchange c s) (high (heap t m))"
    and co: "codes t' = exchange c s (codes t)"
    and nt0: "\<forall>m. nterm (heap t' m) = nterm (heap t m)"
    and na: "nalloc t' = nalloc t" and tp: "top t' = top t" and te: "terms t' = terms t"
  shows "update_inv t' (parent (heap t' c)) (insert c V) r"
    and "\<And>c'. parent (heap t' c) = Some c' \<Longrightarrow> r c < r c'"
proof -
  have pa: "parent (heap t' m) =
             (if m = c then parent (heap t s) else if m = s then parent (heap t c)
              else parent (heap t m))" for m
    using pa0 by blast
  have lo: "low (heap t' m) = map_option (exchange c s) (low (heap t m))" if "m \<in> nodes t" for m
    using lo0 that by blast
  have hi: "high (heap t' m) = map_option (exchange c s) (high (heap t m))" if "m \<in> nodes t" for m
    using hi0 that by blast
  have nt: "nterm (heap t' m) = nterm (heap t m)" for m
    using nt0 by blast
  note d = update_invD[OF inv]
  note o = order_okD[OF d(1)]
  note b = links_basic[OF d(2)]
  from d(5)[OF refl] have cn: "c \<in> nodes t" and ct: "c \<noteq> top t"
    and cl: "V = {} \<longrightarrow> is_leaf t c" and cr: "\<forall>v\<in>V. r v < r c"
    and ce: "freq t c = 0 \<longrightarrow> parent (heap t (top t)) = parent (heap t c)
                  \<or> parent (heap t (top t)) = Some c"
    by auto
  from cr have cv: "c \<notin> V" by auto
  have cur': "parent (heap t' c) = parent (heap t s)"
    unfolding pa by simp
  have ptop: "parent (heap t (top t)) \<noteq> None"
    using links_root[OF d(2) o(4)] b(3) by auto
  have half: "r c div 2 = r s div 2"
    using d(9)[OF cn] d(9)[OF sn] cv sv sw by simp

  have sorted0: "sorted (map (freq t) (map (exchange c s) (blockList t)))"
    unfolding exchange_weights[of "freq t" c s "blockList t", OF sw[symmetric]] by (rule o(3))
  have 1: "order_ok t'"
    unfolding order_ok_def n na tp
  proof (intro conjI)
    show "distinct (blockList t')"
      unfolding bl by (rule reseat_distinct[OF exchange_distinct[OF o(1)]])
    show "\<forall>n\<in>nodes t. n < nalloc t" using o(2) by blast
    show "sorted (map (freq t') (blockList t'))"
      unfolding bl f by (rule reseat_sorted[OF sorted0])
    show "top t \<in> nodes t" by (rule o(4))
    show "freq t' (top t) = 0" unfolding f using o(5) ct by simp
  qed

  have st: "s = top t \<longrightarrow> c \<noteq> codes t"
  proof
    assume s: "s = top t"
    with ct have "s \<noteq> c" by simp
    with un have u: "parent (heap t s) \<noteq> Some c" by simp
    from s sw o(5) have "freq t c = 0" by simp
    with ce u s have "parent (heap t c) = parent (heap t (top t))" by auto
    with ptop b(2) show "c \<noteq> codes t" by auto
  qed
  have 2: "links_ok t'"
    by (rule links_exchange[OF d(2) cn sn o(4) ct st n tp co pa lo hi nt])

  have 3: "table_ok t'"
    unfolding table_ok_def te n tp nt
  proof (intro allI impI)
    fix x m
    assume "terms t x = Some (Some m)"
    with d(3) have m: "m \<in> nodes t" "m \<noteq> top t" "is_leaf t m" "nterm (heap t m) = x"
      unfolding table_ok_def by blast+
    from m(3) lo[OF m(1)] hi[OF m(1)] have "is_leaf t' m"
      by (simp add: is_leaf_def)
    with m show "m \<in> nodes t \<and> m \<noteq> top t \<and> is_leaf t' m \<and> nterm (heap t m) = x"
      by simp
  qed

  have exw: "freq t (exchange c s x) = freq t x" for x
    using sw by (auto simp: exchange_def)
  have exc: "exchange c s x = c \<longleftrightarrow> x = s" for x
    by (auto simp: exchange_def)
  have 4: "weights_ok t' (parent (heap t' c)) (insert c V \<noteq> {})"
    unfolding weights_ok_def n cur'
  proof (intro ballI allI impI)
    fix p a' b'
    assume p: "p \<in> nodes t" and ch: "low (heap t' p) = Some a' \<and> high (heap t' p) = Some b'"
    from ch obtain a b where ab: "low (heap t p) = Some a" "high (heap t p) = Some b"
      and a'b': "a' = exchange c s a" "b' = exchange c s b"
      unfolding lo[OF p] hi[OF p] by auto
    from links_child[OF d(2) p] ab have pab: "parent (heap t a) = Some p" "parent (heap t b) = Some p"
      by auto
    from links_two(2)[OF d(2) p] ab have anb: "a \<noteq> b" by auto
    from d(4) p ab have w: "freq t a + freq t b = freq t p + (if V \<noteq> {} \<and> Some c = Some p then 1 else 0)"
      unfolding weights_ok_def by blast
    have pc: "V \<noteq> {}" if "p = c"
    proof -
      from that ab have "\<not> is_leaf t c" by (simp add: is_leaf_def)
      with cl show ?thesis by auto
    qed
    have cnt: "(if a = s then 1 else 0) + (if b = s then 1 else 0)
              = (if parent (heap t s) = Some p then 1 else (0::nat))"
    proof (cases "parent (heap t s) = Some p")
      case True
      from links_parent[OF d(2) sn True] ab have "a = s \<or> b = s" by auto
      with anb True show ?thesis by auto
    next
      case False
      with pab have "a \<noteq> s" "b \<noteq> s" by auto
      with False show ?thesis by simp
    qed
    have "freq t' a' + freq t' b'
        = freq t a + freq t b + ((if a = s then 1 else 0) + (if b = s then 1 else 0))"
      unfolding f a'b' using sw by (simp add: exw exc)
    also have "\<dots> = freq t p + (if p = c then 1 else 0)
                    + (if parent (heap t s) = Some p then 1 else 0)"
      unfolding cnt w using pc by auto
    also have "\<dots> = freq t' p + (if insert c V \<noteq> {} \<and> parent (heap t s) = Some p then 1 else 0)"
      unfolding f by simp
    finally show "freq t' a' + freq t' b'
        = freq t' p + (if insert c V \<noteq> {} \<and> parent (heap t s) = Some p then 1 else 0)" .
  qed

  have 7: "r m < r p" if m: "m \<in> nodes t'" and pm: "parent (heap t' m) = Some p" for m p
  proof -
    from m have mn: "m \<in> nodes t" by (simp add: n)
    consider "m = c" "s \<noteq> c" | "m = s" "s \<noteq> c" | "m \<noteq> c" "m \<noteq> s" | "m = c" "s = c"
      by blast
    then show ?thesis
    proof cases
      case 1
      with pm have ps: "parent (heap t s) = Some p" unfolding pa by simp
      from d(7)[OF sn ps] have sp: "r s < r p" .
      show ?thesis
      proof (rule ccontr)
        assume "\<not> r m < r p"
        with 1 have "r p \<le> r c" by simp
        from same_half[OF half sp this] have e: "r c = r p" and od: "odd (r c)" by simp_all
        from links_parent[OF d(2) sn ps] have "p \<in> nodes t" by (rule conjunct1)
        from d(8)[OF cn this od e] ps un 1(2) show False by simp
      qed
    next
      case 2
      with pm have pc: "parent (heap t c) = Some p" unfolding pa by simp
      from d(7)[OF cn pc] have cp: "r c < r p" .
      show ?thesis
      proof (rule ccontr)
        assume "\<not> r m < r p"
        with 2 have "r p \<le> r s" by simp
        from same_half[OF half[symmetric] cp this] have e: "r s = r p" and od: "odd (r s)" by simp_all
        from links_parent[OF d(2) cn pc] have "p \<in> nodes t" by (rule conjunct1)
        from d(8)[OF sn this od e] pc un 2(2) show False by simp
      qed
    next
      case 3
      with pm have "parent (heap t m) = Some p" unfolding pa by simp
      from d(7)[OF mn this] show ?thesis .
    next
      case 4
      with pm have "parent (heap t m) = Some p" unfolding pa by simp
      from d(7)[OF mn this] show ?thesis .
    qed
  qed
  show up: "r c < r c'" if "parent (heap t' c) = Some c'" for c'
    using 7[of c c'] that cn n by simp
  have 8: "\<forall>m\<in>nodes t'. \<forall>m'\<in>nodes t'. odd (r m) \<longrightarrow> r m = r m' \<longrightarrow> m = m'"
    unfolding n using d(8) by blast
  have 9: "\<forall>m\<in>nodes t'. freq t' m = r m div 2 + (if m \<in> insert c V then 1 else 0)"
    unfolding n f
  proof
    fix m assume "m \<in> nodes t"
    from d(9)[OF this] d(9)[OF cn] cv
    show "((freq t)(c := Suc (freq t c))) m = r m div 2 + (if m \<in> insert c V then 1 else 0)"
      by (cases "m = c") simp_all
  qed
  have 10: "sorted_wrt (\<lambda>a b. freq t' a = freq t' b \<longrightarrow> b \<in> insert c V \<longrightarrow> a \<in> insert c V)
              (blockList t')"
    unfolding bl f
    by (rule reseat_visited_first[OF exchange_visited_first[OF d(10) sw[symmetric] cv sv]])

  have zero: "parent (heap t s) = Some m"
    if m: "m \<in> nodes t" "freq t m = 0" "m \<noteq> top t" "m \<noteq> c" for m
  proof -
    from d(6)[OF m(1,2)] m(3,4) have z: "freq t c = 0" "parent (heap t c) = Some m"
      "parent (heap t (top t)) = Some m"
      by auto
    show ?thesis
    proof (cases "s = c")
      case True
      with z show ?thesis by simp
    next
      case False
      from z(1) sw have "freq t s = 0" by simp
      from d(6)[OF sn this] False un have "s = top t" by auto
      with z show ?thesis by simp
    qed
  qed
  have 5: "c' \<in> nodes t' \<and> c' \<noteq> top t' \<and> (insert c V = {} \<longrightarrow> is_leaf t' c')
            \<and> (\<forall>v\<in>insert c V. r v < r c')
            \<and> (freq t' c' = 0 \<longrightarrow> parent (heap t' (top t')) = parent (heap t' c')
                  \<or> parent (heap t' (top t')) = Some c')"
    if c': "parent (heap t' c) = Some c'" for c'
  proof -
    from c' have ps: "parent (heap t s) = Some c'" unfolding cur' .
    from links_parent[OF d(2) sn ps] have c'n: "c' \<in> nodes t"
      and ch: "low (heap t c') = Some s \<or> high (heap t c') = Some s"
      by auto
    from ch b(4) have c't: "c' \<noteq> top t" by (auto simp: is_leaf_def)
    from up[OF c'] cr have rv: "\<forall>v\<in>insert c V. r v < r c'" by auto
    have e: "parent (heap t' (top t)) = Some c'" if z: "freq t' c' = 0"
    proof -
      from z have c'c: "c' \<noteq> c" and z0: "freq t c' = 0" unfolding f by (auto split: if_splits)
      from d(6)[OF c'n z0] c't c'c have q: "parent (heap t c) = Some c'"
        "parent (heap t (top t)) = Some c'"
        by auto
      then show ?thesis unfolding pa using ct by simp
    qed
    from c'n c't rv e show ?thesis unfolding n tp by simp
  qed
  have 6: "m = top t' \<or> parent (heap t' c) = Some m
            \<or> (\<exists>c'. parent (heap t' c) = Some c' \<and> freq t' c' = 0 \<and> parent (heap t' c') = Some m
                  \<and> parent (heap t' (top t')) = Some m)"
    if m: "m \<in> nodes t'" "freq t' m = 0" for m
  proof (cases "m = top t")
    case True
    then show ?thesis by (simp add: tp)
  next
    case False
    from m(2) have mc: "m \<noteq> c" and z0: "freq t m = 0" unfolding f by (auto split: if_splits)
    from zero[OF _ z0 False mc] m(1) have "parent (heap t s) = Some m" by (simp add: n)
    then show ?thesis unfolding cur' by simp
  qed
  show "update_inv t' (parent (heap t' c)) (insert c V) r"
    unfolding update_inv_def
  proof (intro conjI)
    show "order_ok t'" by (rule 1)
    show "links_ok t'" by (rule 2)
    show "table_ok t'" by (rule 3)
    show "weights_ok t' (parent (heap t' c)) (insert c V \<noteq> {})" by (rule 4)
    show "\<forall>ca. parent (heap t' c) = Some ca \<longrightarrow>
         ca \<in> nodes t' \<and> ca \<noteq> top t' \<and> (insert c V = {} \<longrightarrow> is_leaf t' ca) \<and>
         (\<forall>v\<in>insert c V. r v < r ca) \<and>
         (freq t' ca = 0 \<longrightarrow>
          parent (heap t' (top t')) = parent (heap t' ca) \<or>
          parent (heap t' (top t')) = Some ca)"
      using 5 by blast
    show "\<forall>m\<in>nodes t'. freq t' m = 0 \<longrightarrow> m = top t' \<or> parent (heap t' c) = Some m \<or>
          (\<exists>ca. parent (heap t' c) = Some ca \<and> freq t' ca = 0 \<and>
             parent (heap t' ca) = Some m \<and> parent (heap t' (top t')) = Some m)"
      using 6 by blast
    show "\<forall>m\<in>nodes t'. \<forall>p. parent (heap t' m) = Some p \<longrightarrow> r m < r p"
      using 7 by blast
    show "\<forall>m\<in>nodes t'. \<forall>m'\<in>nodes t'. odd (r m) \<longrightarrow> r m = r m' \<longrightarrow> m = m'" by (rule 8)
    show "\<forall>m\<in>nodes t'. freq t' m = r m div 2 + (if m \<in> insert c V then 1 else 0)" by (rule 9)
    show "sorted_wrt (\<lambda>a b. freq t' a = freq t' b \<longrightarrow> b \<in> insert c V \<longrightarrow> a \<in> insert c V)
              (blockList t')" by (rule 10)
  qed
qed

lemma update_inv_done:
  assumes "update_inv t None V r"
  shows "tree_inv t"
proof -
  note d = update_invD[OF assms]
  have w: "weights_ok t None False"
    using d(4) unfolding weights_ok_def by simp
  have p: "\<forall>m\<in>nodes t. m \<noteq> top t \<longrightarrow> 0 < freq t m"
  proof (intro ballI impI)
    fix m assume m: "m \<in> nodes t" "m \<noteq> top t"
    show "0 < freq t m"
    proof (rule ccontr)
      assume "\<not> 0 < freq t m"
      then have "freq t m = 0" by simp
      from d(6)[OF m(1) this] m(2) show False by simp
    qed
  qed
  have s: "\<forall>m\<in>nodes t. parent (heap t m) \<noteq> Some m"
  proof (intro ballI notI)
    fix m assume "m \<in> nodes t" "parent (heap t m) = Some m"
    from d(7)[OF this] show False by simp
  qed
  from d(1,2,3) w p s show ?thesis
    unfolding tree_inv_def by simp
qed

lemma HFupdate_total_aux:
  assumes "update_inv t (Some c) V r" and "\<forall>m\<in>nodes t. r m < B" and "k = B - r c"
  shows "\<exists>t'. HFupdate t (Some c) = Some t' \<and> tree_inv t' \<and> nodes t' = nodes t
           \<and> terms t' = terms t \<and> top t' = top t \<and> nalloc t' = nalloc t
           \<and> (\<forall>m. nterm (heap t' m) = nterm (heap t m))"
  using assms
proof (induction k arbitrary: t c V rule: less_induct)
  case (less k)
  from iteration_char[OF less.prems(1)] obtain t1 s where
    u: "HFupdate t (Some c) = HFupdate t1 (parent (heap t1 c))"
    and sn: "s \<in> nodes t" and sw: "freq t s = freq t c" and sv: "s \<notin> V"
    and un: "s \<noteq> c \<longrightarrow> parent (heap t c) \<noteq> Some s \<and> parent (heap t s) \<noteq> Some c"
    and bl: "blockList t1 =
          takeWhile (\<lambda>x. freq t x \<le> freq t c) (filter (\<lambda>x. x \<noteq> c) (map (exchange c s) (blockList t)))
          @ [c] @
          dropWhile (\<lambda>x. freq t x \<le> freq t c) (filter (\<lambda>x. x \<noteq> c) (map (exchange c s) (blockList t)))"
    and n: "nodes t1 = nodes t"
    and f: "freq t1 = (freq t)(c := Suc (freq t c))"
    and pa: "\<forall>m. parent (heap t1 m) =
             (if m = c then parent (heap t s) else if m = s then parent (heap t c)
              else parent (heap t m))"
    and lo: "\<forall>m\<in>nodes t. low (heap t1 m) = map_option (exchange c s) (low (heap t m))"
    and hi: "\<forall>m\<in>nodes t. high (heap t1 m) = map_option (exchange c s) (high (heap t m))"
    and co: "codes t1 = exchange c s (codes t)"
    and nt: "\<forall>m. nterm (heap t1 m) = nterm (heap t m)"
    and na: "nalloc t1 = nalloc t" and tp: "top t1 = top t" and te: "terms t1 = terms t"
    by blast
  have lo': "\<And>m. m \<in> nodes t \<Longrightarrow> low (heap t1 m) = map_option (exchange c s) (low (heap t m))"
    using lo by blast
  have hi': "\<And>m. m \<in> nodes t \<Longrightarrow> high (heap t1 m) = map_option (exchange c s) (high (heap t m))"
    using hi by blast
  note it = iteration_inv[OF less.prems(1) sn sw sv un bl n f pa lo hi co nt na tp te]
  show ?case
  proof (cases "parent (heap t1 c)")
    case None
    from it(1) have "update_inv t1 None (insert c V) r" unfolding None .
    from update_inv_done[OF this] u n te tp na nt show ?thesis
      by (simp add: None HFupdate_None)
  next
    case (Some c')
    from it(1) have i1: "update_inv t1 (Some c') (insert c V) r" unfolding Some .
    from it(2)[OF Some] have up: "r c < r c'" .
    from update_invD(5)[OF i1 refl] have "c' \<in> nodes t1" by simp
    with less.prems(2) n have "r c' < B" by simp
    with up less.prems(3) have lt: "B - r c' < k" by simp
    from less.prems(2) n have b1: "\<forall>m\<in>nodes t1. r m < B" by simp
    from less.IH[OF lt i1 b1 refl] obtain t' where
      "HFupdate t1 (Some c') = Some t'" "tree_inv t'" "nodes t' = nodes t1"
      "terms t' = terms t1" "top t' = top t1" "nalloc t' = nalloc t1"
      "\<forall>m. nterm (heap t' m) = nterm (heap t1 m)"
      by blast
    with u n te tp na nt show ?thesis
      by (simp add: Some)
  qed
qed

text \<open>The update loop returns, and leaves a well-formed engine.\<close>

lemma HFupdate_total:
  assumes "update_inv t (Some c) V r"
  shows "\<exists>t'. HFupdate t (Some c) = Some t' \<and> tree_inv t' \<and> nodes t' = nodes t
           \<and> terms t' = terms t \<and> top t' = top t \<and> nalloc t' = nalloc t
           \<and> (\<forall>m. nterm (heap t' m) = nterm (heap t m))"
proof -
  have "finite (r ` nodes t)" by (simp add: nodes_def)
  then have "\<forall>m\<in>nodes t. r m < Suc (Max (r ` nodes t))"
    by (auto simp: less_Suc_eq_le)
  from HFupdate_total_aux[OF assms this refl] show ?thesis .
qed

text \<open>The measure of a well-formed engine grows from child to parent.\<close>

lemma children_of:
  assumes l: "links_ok t" and m: "m \<in> nodes t" and pm: "parent (heap t m) = Some p"
  shows "\<exists>m'. m' \<in> nodes t \<and> m' \<noteq> m \<and> parent (heap t m') = Some p \<and> p \<in> nodes t
           \<and> ((low (heap t p) = Some m \<and> high (heap t p) = Some m')
              \<or> (low (heap t p) = Some m' \<and> high (heap t p) = Some m))"
proof -
  from links_parent[OF l m pm] have pn: "p \<in> nodes t"
    and ch: "low (heap t p) = Some m \<or> high (heap t p) = Some m" by auto
  from links_two[OF l pn] ch obtain a b where ab: "low (heap t p) = Some a" "high (heap t p) = Some b" "a \<noteq> b"
    by (cases "low (heap t p)"; cases "high (heap t p)") auto
  from links_child[OF l pn] ab have "a \<in> nodes t" "b \<in> nodes t"
    "parent (heap t a) = Some p" "parent (heap t b) = Some p" by auto
  with ab ch pn show ?thesis by auto
qed

lemma rank_strict:
  assumes inv: "tree_inv t" and m: "m \<in> nodes t" and pm: "parent (heap t m) = Some p"
  shows "rank t m < rank t p"
proof -
  from inv have l: "links_ok t" and w: "weights_ok t None False"
    and pos: "\<And>x. x \<in> nodes t \<Longrightarrow> x \<noteq> top t \<Longrightarrow> 0 < freq t x"
    and ns: "\<And>x. x \<in> nodes t \<Longrightarrow> parent (heap t x) \<noteq> Some x"
    and o: "order_ok t"
    unfolding tree_inv_def by auto
  from children_of[OF l m pm] obtain m' where m': "m' \<in> nodes t" "m' \<noteq> m"
    "parent (heap t m') = Some p" "p \<in> nodes t"
    and ch: "(low (heap t p) = Some m \<and> high (heap t p) = Some m')
              \<or> (low (heap t p) = Some m' \<and> high (heap t p) = Some m)"
    by blast
  from w m'(4) ch have sum: "freq t m + freq t m' = freq t p"
    unfolding weights_ok_def by auto
  from ns[OF m] pm have pne: "p \<noteq> m" by auto
  show ?thesis
  proof (cases "m' = top t")
    case True
    with m'(3) pne have "rank t p = 2 * freq t p + 1" "rank t m = 2 * freq t m"
      by (auto simp: rank_def)
    moreover from True sum order_okD(5)[OF o] have "freq t m = freq t p" by simp
    ultimately show ?thesis by simp
  next
    case False
    from pos[OF m'(1) False] sum have "freq t m < freq t p" by simp
    then show ?thesis by (auto simp: rank_def)
  qed
qed

lemma rank_odd:
  assumes "odd (rank t m)" and "rank t m = rank t m'"
  shows "m = m'"
proof -
  from assms(1) have a: "parent (heap t (top t)) = Some m"
    by (auto simp: rank_def split: if_splits)
  from assms have "odd (rank t m')" by simp
  then have "parent (heap t (top t)) = Some m'"
    by (auto simp: rank_def split: if_splits)
  with a show ?thesis by simp
qed

text \<open>The update that follows the code of a known symbol starts in a state of the loop.\<close>

lemma known_start:
  assumes inv: "tree_inv t" and n: "n \<in> nodes t" "n \<noteq> top t" "is_leaf t n"
  shows "update_inv t (Some n) {} (rank t)"
proof -
  from inv have l: "links_ok t" and w: "weights_ok t None False"
    and pos: "\<And>x. x \<in> nodes t \<Longrightarrow> x \<noteq> top t \<Longrightarrow> 0 < freq t x"
    and o: "order_ok t" and tb: "table_ok t"
    unfolding tree_inv_def by auto
  have w': "weights_ok t (Some n) ({} \<noteq> {})"
    using w unfolding weights_ok_def by simp
  have c: "\<forall>c. Some n = Some c \<longrightarrow>
             c \<in> nodes t \<and> c \<noteq> top t \<and> ({} = {} \<longrightarrow> is_leaf t c) \<and> (\<forall>v\<in>{}. rank t v < rank t c)
             \<and> (freq t c = 0 \<longrightarrow>
                  parent (heap t (top t)) = parent (heap t c)
                  \<or> parent (heap t (top t)) = Some c)"
    using n pos[OF n(1,2)] by simp
  have z: "\<forall>m\<in>nodes t. freq t m = 0 \<longrightarrow>
             m = top t \<or> Some n = Some m
             \<or> (\<exists>c. Some n = Some c \<and> freq t c = 0 \<and> parent (heap t c) = Some m
                     \<and> parent (heap t (top t)) = Some m)"
    using pos by fastforce
  have r1: "\<forall>m\<in>nodes t. \<forall>p. parent (heap t m) = Some p \<longrightarrow> rank t m < rank t p"
    using rank_strict[OF inv] by blast
  have r2: "\<forall>m\<in>nodes t. \<forall>m'\<in>nodes t. odd (rank t m) \<longrightarrow> rank t m = rank t m' \<longrightarrow> m = m'"
    using rank_odd by blast
  have r3: "\<forall>m\<in>nodes t. freq t m = rank t m div 2 + (if m \<in> {} then 1 else 0)"
    by (simp add: rank_def)
  have r5: "sorted_wrt (\<lambda>a b. freq t a = freq t b \<longrightarrow> b \<in> {} \<longrightarrow> a \<in> {}) (blockList t)"
    by (simp add: sorted_wrt_true)
  show ?thesis
    unfolding update_inv_def
    using o l tb w' c z r1 r2 r3 r5 by (intro conjI)
qed

lemma BLinsert_set: "xs \<noteq> [] \<Longrightarrow> set (BLinsert xs n) = insert n (set xs)"
  by (cases xs) auto

lemma BLinsert_nonempty: "BLinsert xs n \<noteq> []"
  by (cases xs) auto

lemma sorted_head_zero:
  assumes "sorted (map w xs)" and "z \<in> set xs" and "w z = (0::nat)"
  shows "w (hd xs) = 0"
proof (cases xs)
  case Nil
  with assms show ?thesis by simp
next
  case (Cons e rest)
  with assms have "w e \<le> w z" by auto
  with assms(3) Cons show ?thesis by simp
qed

lemma BLinsert_sorted:
  assumes "sorted (map w xs)" and "z \<in> set xs" and "w z = (0::nat)" and "w n = 0"
  shows "sorted (map w (BLinsert xs n))"
proof (cases xs)
  case Nil
  then show ?thesis by simp
next
  case (Cons e rest)
  from sorted_head_zero[OF assms(1-3)] Cons have "w e = 0" by simp
  with assms(1,4) Cons show ?thesis by simp
qed

lemma BLinsert_distinct:
  assumes "distinct xs" and "n \<notin> set xs"
  shows "distinct (BLinsert xs n)"
  using assms by (cases xs) auto

lemma normal_insert_fields:
  assumes "p \<noteq> top t" and "p < nalloc t" and "top t < nalloc t"
  shows "parent (heap (normal_insert t p x) m) =
           (if m = nalloc t then Some p else if m = Suc (nalloc t) then Some (nalloc t)
            else if m = top t then Some (nalloc t) else parent (heap t m))"
    and "low (heap (normal_insert t p x) m) =
           (if m = nalloc t then Some (top t) else if m = Suc (nalloc t) then None
            else if m = p \<and> low (heap t p) = Some (top t) then Some (nalloc t)
            else low (heap t m))"
    and "high (heap (normal_insert t p x) m) =
           (if m = nalloc t then Some (Suc (nalloc t)) else if m = Suc (nalloc t) then None
            else if m = p \<and> low (heap t p) \<noteq> Some (top t) then Some (nalloc t)
            else high (heap t m))"
    and "freq (normal_insert t p x) m =
           (if m = nalloc t then freq t (top t) else if m = Suc (nalloc t) then 0 else freq t m)"
    and "nterm (heap (normal_insert t p x) m) =
           (if m = nalloc t then Null else if m = Suc (nalloc t) then x else nterm (heap t m))"
    and "blockList (normal_insert t p x) = BLinsert (BLinsert (blockList t) (nalloc t)) (Suc (nalloc t))"
    and "codes (normal_insert t p x) = codes t" and "top (normal_insert t p x) = top t"
    and "nalloc (normal_insert t p x) = Suc (Suc (nalloc t))"
    and "terms (normal_insert t p x) = (terms t)(x := Some (Some (Suc (nalloc t))))"
proof -
  have ne: "p \<noteq> nalloc t" "top t \<noteq> nalloc t" "p \<noteq> Suc (nalloc t)" "top t \<noteq> Suc (nalloc t)"
    using assms by auto
  show "parent (heap (normal_insert t p x) m) =
           (if m = nalloc t then Some p else if m = Suc (nalloc t) then Some (nalloc t)
            else if m = top t then Some (nalloc t) else parent (heap t m))"
    using ne assms(1) by (simp add: normal_insert_def)
  show "low (heap (normal_insert t p x) m) =
           (if m = nalloc t then Some (top t) else if m = Suc (nalloc t) then None
            else if m = p \<and> low (heap t p) = Some (top t) then Some (nalloc t)
            else low (heap t m))"
    using ne assms(1) by (simp add: normal_insert_def)
  show "high (heap (normal_insert t p x) m) =
           (if m = nalloc t then Some (Suc (nalloc t)) else if m = Suc (nalloc t) then None
            else if m = p \<and> low (heap t p) \<noteq> Some (top t) then Some (nalloc t)
            else high (heap t m))"
    using ne assms(1) by (simp add: normal_insert_def)
  show "freq (normal_insert t p x) m =
           (if m = nalloc t then freq t (top t) else if m = Suc (nalloc t) then 0 else freq t m)"
    using ne assms(1) by (simp add: normal_insert_def freq_def)
  show "nterm (heap (normal_insert t p x) m) =
           (if m = nalloc t then Null else if m = Suc (nalloc t) then x else nterm (heap t m))"
    using ne assms(1) by (simp add: normal_insert_def)
qed (simp_all add: normal_insert_def)

text \<open>
  The state \<open>HFadd\<close> leaves: the new leaf \<open>N\<close> and the escape leaf are the two children of
  \<open>B\<close>, and these three nodes are the ones of weight 0.
\<close>

lemma add_start:
  assumes o: "order_ok t" and l: "links_ok t" and tb: "table_ok t" and w: "weights_ok t None False"
    and N: "N \<in> nodes t" "N \<noteq> top t" "is_leaf t N" "freq t N = 0"
    and B: "parent (heap t N) = Some B" "parent (heap t (top t)) = Some B" "freq t B = 0"
    and pos: "\<forall>m\<in>nodes t. m \<noteq> top t \<longrightarrow> m \<noteq> N \<longrightarrow> m \<noteq> B \<longrightarrow> 0 < freq t m"
    and ns: "\<forall>m\<in>nodes t. parent (heap t m) \<noteq> Some m"
  shows "update_inv t (Some N) {}
           (\<lambda>m. if m = B then 1 else 2 * freq t m + (if parent (heap t B) = Some m then 1 else 0))"
proof -
  let ?r = "\<lambda>m. if m = B then 1 else 2 * freq t m + (if parent (heap t B) = Some m then 1 else (0::nat))"
  note b = links_basic[OF l]
  note od = order_okD[OF o]
  have leafT: "parent (heap t q) \<noteq> Some (top t)" if "q \<in> nodes t" for q
  proof
    assume "parent (heap t q) = Some (top t)"
    from links_parent[OF l that this] b(4) show False by (auto simp: is_leaf_def)
  qed
  have leafN: "parent (heap t q) \<noteq> Some N" if "q \<in> nodes t" for q
  proof
    assume "parent (heap t q) = Some N"
    from links_parent[OF l that this] N(3) show False by (auto simp: is_leaf_def)
  qed
  from links_parent[OF l N(1) B(1)] have Bn: "B \<in> nodes t" by simp
  from ns N(1) B(1) have NB: "N \<noteq> B" by auto
  from ns od(4) B(2) have TB: "top t \<noteq> B" by auto
  have kids: "m = top t \<or> m = N" if "m \<in> nodes t" "parent (heap t m) = Some B" for m
  proof -
    from children_of[OF l N(1) B(1)] obtain m' where m': "m' \<noteq> N"
      "(low (heap t B) = Some N \<and> high (heap t B) = Some m')
              \<or> (low (heap t B) = Some m' \<and> high (heap t B) = Some N)"
      by blast
    from links_parent[OF l od(4) B(2)] N(2) m' have "m' = top t" by auto
    with m'(2) links_parent[OF l that] show ?thesis by auto
  qed
  have zero: "m = top t \<or> m = N \<or> m = B" if "m \<in> nodes t" "freq t m = 0" for m
    using pos that by fastforce
  have w': "weights_ok t (Some N) ({} \<noteq> {})"
    using w unfolding weights_ok_def by simp
  have c: "\<forall>c. Some N = Some c \<longrightarrow>
             c \<in> nodes t \<and> c \<noteq> top t \<and> ({} = {} \<longrightarrow> is_leaf t c) \<and> (\<forall>v\<in>{}. ?r v < ?r c)
             \<and> (freq t c = 0 \<longrightarrow>
                  parent (heap t (top t)) = parent (heap t c)
                  \<or> parent (heap t (top t)) = Some c)"
    using N B by simp
  have z: "\<forall>m\<in>nodes t. freq t m = 0 \<longrightarrow>
             m = top t \<or> Some N = Some m
             \<or> (\<exists>c. Some N = Some c \<and> freq t c = 0 \<and> parent (heap t c) = Some m
                     \<and> parent (heap t (top t)) = Some m)"
    using zero N(4) B by fastforce
  have r1: "?r m < ?r p" if m: "m \<in> nodes t" and pm: "parent (heap t m) = Some p" for m p
  proof -
    from children_of[OF l m pm] obtain m' where m': "m' \<in> nodes t" "m' \<noteq> m"
      "parent (heap t m') = Some p" "p \<in> nodes t"
      and ch: "(low (heap t p) = Some m \<and> high (heap t p) = Some m')
              \<or> (low (heap t p) = Some m' \<and> high (heap t p) = Some m)"
      by blast
    from w m'(4) ch have sum: "freq t m + freq t m' = freq t p"
      unfolding weights_ok_def by auto
    from ns m pm have pne: "p \<noteq> m" by auto
    from leafT[OF m] pm have pT: "p \<noteq> top t" by auto
    from leafN[OF m] pm have pN: "p \<noteq> N" by auto
    show ?thesis
    proof (cases "p = B")
      case True
      from kids[OF m] pm True have mk: "m = top t \<or> m = N" by simp
      with od(5) N(4) have "freq t m = 0" by auto
      moreover from mk leafT[OF Bn] leafN[OF Bn] have "parent (heap t B) \<noteq> Some m" by auto
      ultimately show ?thesis using True pne by simp
    next
      case False
      from pos m'(4) pT pN False have fp: "0 < freq t p" by simp
      show ?thesis
      proof (cases "m = B")
        case True
        with pm fp False show ?thesis by simp
      next
        case mB: False
        from kids[OF m'(1)] m'(3) False have m'k: "m' \<noteq> top t" "m' \<noteq> N"
          using B by auto
        show ?thesis
        proof (cases "m' = B")
          case True
          with sum B(3) have "freq t m = freq t p" by simp
          moreover from True m'(3) have "parent (heap t B) = Some p" by simp
          ultimately show ?thesis using mB False pne by simp
        next
          case m'B: False
          from pos m'(1) m'k m'B have "0 < freq t m'" by simp
          with sum have "freq t m < freq t p" by simp
          then show ?thesis using mB False by auto
        qed
      qed
    qed
  qed
  have odd_r: "m = B \<or> (parent (heap t B) = Some m \<and> 0 < freq t m)"
    if "m \<in> nodes t" "odd (?r m)" for m
  proof (cases "m = B")
    case True
    then show ?thesis by simp
  next
    case False
    with that(2) have pb: "parent (heap t B) = Some m" by (auto split: if_splits)
    with leafT[OF Bn] leafN[OF Bn] have "m \<noteq> top t" "m \<noteq> N" by auto
    with pos that(1) False pb show ?thesis by simp
  qed
  have r2: "m = m'" if m: "m \<in> nodes t" "m' \<in> nodes t" and od: "odd (?r m)" and e: "?r m = ?r m'"
    for m m'
  proof -
    from od e have od': "odd (?r m')" by simp
    from odd_r[OF m(1) od] odd_r[OF m(2) od'] e show ?thesis
      by (auto split: if_splits)
  qed
  have r3: "\<forall>m\<in>nodes t. freq t m = ?r m div 2 + (if m \<in> {} then 1 else 0)"
    using B(3) by simp
  have r5: "sorted_wrt (\<lambda>a b. freq t a = freq t b \<longrightarrow> b \<in> {} \<longrightarrow> a \<in> {}) (blockList t)"
    by (simp add: sorted_wrt_true)
  show ?thesis
    unfolding update_inv_def
  proof (intro conjI)
    show "\<forall>m\<in>nodes t. \<forall>p. parent (heap t m) = Some p \<longrightarrow> ?r m < ?r p"
      using r1 by blast
    show "\<forall>m\<in>nodes t. \<forall>m'\<in>nodes t. odd (?r m) \<longrightarrow> ?r m = ?r m' \<longrightarrow> m = m'"
      using r2 by blast
  qed (use o l tb w' c z r3 r5 in blast)+
qed

lemma tree_invD:
  assumes "tree_inv t"
  shows "order_ok t" "links_ok t" "table_ok t" "weights_ok t None False"
    and "\<And>m. m \<in> nodes t \<Longrightarrow> m \<noteq> top t \<Longrightarrow> 0 < freq t m"
    and "\<And>m. m \<in> nodes t \<Longrightarrow> parent (heap t m) \<noteq> Some m"
  using assms unfolding tree_inv_def by blast+

text \<open>The escape leaf of a well-formed engine and its surroundings.\<close>

lemma escape_place:
  assumes inv: "tree_inv t"
  shows "\<exists>p q. parent (heap t (top t)) = Some p \<and> p \<in> nodes t \<and> p \<noteq> top t
           \<and> q \<in> nodes t \<and> q \<noteq> top t \<and> parent (heap t q) = Some p
           \<and> ((low (heap t p) = Some (top t) \<and> high (heap t p) = Some q)
              \<or> (low (heap t p) = Some q \<and> high (heap t p) = Some (top t)))"
proof -
  note d = tree_invD[OF inv]
  note b = links_basic[OF d(2)]
  note od = order_okD[OF d(1)]
  from links_root[OF d(2) od(4)] b(3) obtain p where p: "parent (heap t (top t)) = Some p"
    by (cases "parent (heap t (top t))") auto
  from children_of[OF d(2) od(4) p] obtain q where "q \<in> nodes t" "q \<noteq> top t"
    "parent (heap t q) = Some p" "p \<in> nodes t"
    "(low (heap t p) = Some (top t) \<and> high (heap t p) = Some q)
              \<or> (low (heap t p) = Some q \<and> high (heap t p) = Some (top t))"
    by blast
  moreover from d(6)[OF od(4)] p have "p \<noteq> top t" by auto
  ultimately show ?thesis using p by blast
qed

lemma normal_insert_start:
  assumes inv: "tree_inv t"
  shows "\<exists>t1 r. HFadd t x = Some (t1, Suc (nalloc t))
           \<and> update_inv t1 (Some (Suc (nalloc t))) {} r"
proof -
  note d = tree_invD[OF inv]
  note b = links_basic[OF d(2)]
  note od = order_okD[OF d(1)]
  from escape_place[OF inv] obtain p q where p: "parent (heap t (top t)) = Some p"
    and pn: "p \<in> nodes t" and pT: "p \<noteq> top t"
    and q: "q \<in> nodes t" "q \<noteq> top t" "parent (heap t q) = Some p"
    and sl: "(low (heap t p) = Some (top t) \<and> high (heap t p) = Some q)
              \<or> (low (heap t p) = Some q \<and> high (heap t p) = Some (top t))"
    by blast
  let ?B = "nalloc t"
  let ?N = "Suc (nalloc t)"
  let ?T = "top t"
  let ?t1 = "normal_insert t p x"
  have old: "m \<noteq> ?B \<and> m \<noteq> ?N" if "m \<in> nodes t" for m
    using od(2)[OF that] by simp
  from od(2)[OF pn] have pB: "p < ?B" .
  from od(2)[OF od(4)] have TB: "?T < ?B" .
  from sl have hp: "high (heap t p) \<noteq> None" by auto
  have add: "HFadd t x = Some (?t1, ?N)"
    by (rule HFadd_normal[OF p hp TB pB pT])
  note F = normal_insert_fields[OF pT pB TB, of x]
  have ne: "blockList t \<noteq> []" using od(4) by (auto simp: nodes_def)
  have n1: "nodes ?t1 = insert ?N (insert ?B (nodes t))"
    unfolding nodes_def F(6) by (simp add: BLinsert_set ne BLinsert_nonempty)
  have pa_old: "parent (heap ?t1 m) = (if m = ?T then Some ?B else parent (heap t m))"
    if "m \<in> nodes t" for m
    unfolding F(1) using old[OF that] by simp
  have lo_old: "low (heap ?t1 m) = (if m = p \<and> low (heap t p) = Some ?T then Some ?B else low (heap t m))"
    if "m \<in> nodes t" for m
    unfolding F(2) using old[OF that] by simp
  have hi_old: "high (heap ?t1 m) = (if m = p \<and> low (heap t p) \<noteq> Some ?T then Some ?B else high (heap t m))"
    if "m \<in> nodes t" for m
    unfolding F(3) using old[OF that] by simp
  have fr_old: "freq ?t1 m = freq t m" if "m \<in> nodes t" for m
    unfolding F(4) using old[OF that] by simp
  have fr_B: "freq ?t1 ?B = 0" unfolding F(4) using od(5) by simp
  have fr_N: "freq ?t1 ?N = 0" unfolding F(4) by simp
  have qB: "q \<noteq> ?B" using old[OF q(1)] by simp
  have kids_p: "(low (heap ?t1 p) = Some ?B \<and> high (heap ?t1 p) = Some q)
              \<or> (low (heap ?t1 p) = Some q \<and> high (heap ?t1 p) = Some ?B)"
    unfolding lo_old[OF pn] hi_old[OF pn] using sl q(2) by auto

  have 1: "order_ok ?t1"
    unfolding order_ok_def
  proof (intro conjI)
    have "distinct (BLinsert (blockList t) ?B)"
      using od(1) old by (intro BLinsert_distinct) (auto simp: nodes_def)
    moreover have "?N \<notin> set (BLinsert (blockList t) ?B)"
      using old by (auto simp: BLinsert_set ne nodes_def)
    ultimately show "distinct (blockList ?t1)"
      unfolding F(6) by (rule BLinsert_distinct)
    show "\<forall>n\<in>nodes ?t1. n < nalloc ?t1"
      unfolding n1 F(9) using od(2) by (auto simp: less_Suc_eq)
    have e: "map (freq ?t1) (blockList t) = map (freq t) (blockList t)"
      using fr_old by (simp add: nodes_def)
    have s0: "sorted (map (freq ?t1) (blockList t))"
      unfolding e by (rule od(3))
    have tz: "?T \<in> set (blockList t)" "freq ?t1 ?T = 0"
      using od(4,5) fr_old[OF od(4)] by (simp_all add: nodes_def)
    have s1: "sorted (map (freq ?t1) (BLinsert (blockList t) ?B))"
      by (rule BLinsert_sorted[OF s0 tz fr_B])
    have tz1: "?T \<in> set (BLinsert (blockList t) ?B)"
      using tz(1) by (simp add: BLinsert_set ne)
    show "sorted (map (freq ?t1) (blockList ?t1))"
      unfolding F(6) by (rule BLinsert_sorted[OF s1 tz1 tz(2) fr_N])
    show "top ?t1 \<in> nodes ?t1" unfolding F(8) n1 using od(4) by simp
    show "freq ?t1 (top ?t1) = 0" unfolding F(8) by (rule tz(2))
  qed

  have l6: "case parent (heap ?t1 m) of
             None \<Rightarrow> m = codes ?t1
           | Some u \<Rightarrow> u \<in> nodes ?t1 \<and> (low (heap ?t1 u) = Some m \<or> high (heap ?t1 u) = Some m)"
    if m: "m \<in> nodes ?t1" for m
  proof -
    consider "m = ?B" | "m = ?N" | "m = ?T" | "m \<in> nodes t" "m \<noteq> ?T"
      using m unfolding n1 by blast
    then show ?thesis
    proof cases
      case 1
      have "parent (heap ?t1 m) = Some p" unfolding F(1) 1 by simp
      with kids_p pn show ?thesis unfolding n1 1 by auto
    next
      case 2
      have "parent (heap ?t1 m) = Some ?B" unfolding F(1) 2 by simp
      moreover have "high (heap ?t1 ?B) = Some ?N" unfolding F(3) by simp
      ultimately show ?thesis unfolding n1 2 by simp
    next
      case 3
      have "parent (heap ?t1 m) = Some ?B" unfolding 3 pa_old[OF od(4)] by simp
      moreover have "low (heap ?t1 ?B) = Some ?T" unfolding F(2) by simp
      ultimately show ?thesis unfolding n1 3 by simp
    next
      case 4
      have pm: "parent (heap ?t1 m) = parent (heap t m)"
        unfolding pa_old[OF 4(1)] using 4(2) by simp
      show ?thesis
      proof (cases "parent (heap t m)")
        case None
        with links_root[OF d(2) 4(1)] pm show ?thesis by (simp add: F(7))
      next
        case (Some u)
        from links_parent[OF d(2) 4(1) Some] have un: "u \<in> nodes t"
          and ch: "low (heap t u) = Some m \<or> high (heap t u) = Some m" by auto
        have "low (heap ?t1 u) = Some m \<or> high (heap ?t1 u) = Some m"
        proof (cases "u = p")
          case True
          with ch sl 4(2) have "m = q" by auto
          with kids_p True show ?thesis by auto
        next
          case False
          with ch show ?thesis unfolding lo_old[OF un] hi_old[OF un] by simp
        qed
        with un show ?thesis unfolding pm Some n1 by simp
      qed
    qed
  qed
  have l7: "m \<in> nodes ?t1 \<and> parent (heap ?t1 m) = Some u"
    if u: "u \<in> nodes ?t1" and ch: "low (heap ?t1 u) = Some m \<or> high (heap ?t1 u) = Some m" for u m
  proof -
    consider "u = ?B" | "u = ?N" | "u = p" | "u \<in> nodes t" "u \<noteq> p"
      using u unfolding n1 by blast
    then show ?thesis
    proof cases
      case 1
      from ch have "m = ?T \<or> m = ?N" unfolding 1 F(2) F(3) by auto
      then show ?thesis
      proof
        assume "m = ?T"
        then show ?thesis unfolding n1 1 using od(4) pa_old[OF od(4)] by simp
      next
        assume "m = ?N"
        then show ?thesis unfolding n1 1 F(1) by simp
      qed
    next
      case 2
      from ch show ?thesis unfolding 2 F(2) F(3) by simp
    next
      case 3
      from ch kids_p have "m = ?B \<or> m = q" unfolding 3 by auto
      then show ?thesis
      proof
        assume "m = ?B"
        then show ?thesis unfolding n1 3 F(1) by simp
      next
        assume "m = q"
        then show ?thesis unfolding n1 3 using q pa_old[OF q(1)] by simp
      qed
    next
      case 4
      from ch have ch0: "low (heap t u) = Some m \<or> high (heap t u) = Some m"
        unfolding lo_old[OF 4(1)] hi_old[OF 4(1)] using 4(2) by simp
      from links_child[OF d(2) 4(1) ch0] have mn: "m \<in> nodes t" and pm: "parent (heap t m) = Some u"
        by auto
      from pm p 4(2) have "m \<noteq> ?T" by auto
      with mn pm show ?thesis unfolding n1 pa_old[OF mn] by simp
    qed
  qed
  have l89: "(low (heap ?t1 u) = None) = (high (heap ?t1 u) = None)
           \<and> (low (heap ?t1 u) \<noteq> None \<longrightarrow> low (heap ?t1 u) \<noteq> high (heap ?t1 u))"
    if u: "u \<in> nodes ?t1" for u
  proof -
    consider "u = ?B" | "u = ?N" | "u = p" | "u \<in> nodes t" "u \<noteq> p"
      using u unfolding n1 by blast
    then show ?thesis
    proof cases
      case 1
      show ?thesis unfolding 1 F(2) F(3) using TB by simp
    next
      case 2
      show ?thesis unfolding 2 F(2) F(3) by simp
    next
      case 3
      from kids_p qB show ?thesis unfolding 3 by auto
    next
      case 4
      from links_two[OF d(2) 4(1)] show ?thesis
        unfolding lo_old[OF 4(1)] hi_old[OF 4(1)] using 4(2) by simp
    qed
  qed
  have leafT: "is_leaf ?t1 ?T"
    using b(4) pT unfolding is_leaf_def lo_old[OF od(4)] hi_old[OF od(4)] by simp
  have 2: "links_ok ?t1"
    unfolding links_ok_def
  proof (intro conjI)
    show "codes ?t1 \<in> nodes ?t1" unfolding F(7) n1 using b(1) by simp
    show "parent (heap ?t1 (codes ?t1)) = None"
      unfolding F(7) pa_old[OF b(1)] using b(2,3) by simp
    show "top ?t1 \<noteq> codes ?t1" unfolding F(7) F(8) by (rule b(3))
    show "is_leaf ?t1 (top ?t1)" unfolding F(8) by (rule leafT)
    show "nterm (heap ?t1 (top ?t1)) = ESCAPE_SEQUENCE"
      unfolding F(8) F(5) using b(5) old[OF od(4)] by simp
    show "\<forall>m\<in>nodes ?t1. case parent (heap ?t1 m) of
             None \<Rightarrow> m = codes ?t1
           | Some u \<Rightarrow> u \<in> nodes ?t1 \<and> (low (heap ?t1 u) = Some m \<or> high (heap ?t1 u) = Some m)"
      using l6 by blast
    show "\<forall>u\<in>nodes ?t1. \<forall>m. low (heap ?t1 u) = Some m \<or> high (heap ?t1 u) = Some m \<longrightarrow>
             m \<in> nodes ?t1 \<and> parent (heap ?t1 m) = Some u"
      using l7 by blast
    show "\<forall>u\<in>nodes ?t1. (low (heap ?t1 u) = None) = (high (heap ?t1 u) = None)"
      using l89 by blast
    show "\<forall>u\<in>nodes ?t1. low (heap ?t1 u) \<noteq> None \<longrightarrow> low (heap ?t1 u) \<noteq> high (heap ?t1 u)"
      using l89 by blast
  qed

  have leafN: "is_leaf ?t1 ?N"
    unfolding is_leaf_def F(2) F(3) by simp
  have 3: "table_ok ?t1"
    unfolding table_ok_def
  proof (intro allI impI)
    fix y n assume tn: "terms ?t1 y = Some (Some n)"
    show "n \<in> nodes ?t1 \<and> n \<noteq> top ?t1 \<and> is_leaf ?t1 n \<and> nterm (heap ?t1 n) = y"
    proof (cases "y = x")
      case True
      with tn have "n = ?N" unfolding F(10) by simp
      with leafN True TB show ?thesis unfolding n1 F(8) F(5) by simp
    next
      case False
      with tn have "terms t y = Some (Some n)" unfolding F(10) by simp
      with d(3) have n: "n \<in> nodes t" "n \<noteq> ?T" "is_leaf t n" "nterm (heap t n) = y"
        unfolding table_ok_def by blast+
      from n(3) sl have "n \<noteq> p" by (auto simp: is_leaf_def)
      with n(3) have "is_leaf ?t1 n"
        unfolding is_leaf_def lo_old[OF n(1)] hi_old[OF n(1)] by simp
      with n old[OF n(1)] show ?thesis unfolding n1 F(8) F(5) by simp
    qed
  qed

  have 4: "weights_ok ?t1 None False"
    unfolding weights_ok_def
  proof (intro ballI allI impI)
    fix u a c assume u: "u \<in> nodes ?t1"
      and ch: "low (heap ?t1 u) = Some a \<and> high (heap ?t1 u) = Some c"
    consider "u = ?B" | "u = ?N" | "u = p" | "u \<in> nodes t" "u \<noteq> p"
      using u unfolding n1 by blast
    then show "freq ?t1 a + freq ?t1 c = freq ?t1 u + (if False \<and> None = Some u then 1 else 0)"
    proof cases
      case 1
      from ch have "a = ?T" "c = ?N" unfolding 1 F(2) F(3) by simp_all
      with fr_B fr_N fr_old[OF od(4)] od(5) show ?thesis unfolding 1 by simp
    next
      case 2
      from ch show ?thesis unfolding 2 F(2) F(3) by simp
    next
      case 3
      from ch kids_p qB have "(a = ?B \<and> c = q) \<or> (a = q \<and> c = ?B)" unfolding 3 by auto
      then have "freq ?t1 a + freq ?t1 c = freq t q"
        using fr_B fr_old[OF q(1)] by auto
      moreover from d(4) pn sl have "freq t ?T + freq t q = freq t p"
        unfolding weights_ok_def by (auto simp: add.commute)
      ultimately show ?thesis unfolding 3 fr_old[OF pn] using od(5) by simp
    next
      case 4
      from ch have ch0: "low (heap t u) = Some a \<and> high (heap t u) = Some c"
        unfolding lo_old[OF 4(1)] hi_old[OF 4(1)] using 4(2) by simp
      from links_child[OF d(2) 4(1), of a] links_child[OF d(2) 4(1), of c] ch0
      have "a \<in> nodes t" "c \<in> nodes t" by auto
      moreover from d(4) 4(1) ch0 have "freq t a + freq t c = freq t u"
        unfolding weights_ok_def by auto
      ultimately show ?thesis by (simp add: fr_old 4(1))
    qed
  qed

  have 5: "\<forall>m\<in>nodes ?t1. m \<noteq> top ?t1 \<longrightarrow> m \<noteq> ?N \<longrightarrow> m \<noteq> ?B \<longrightarrow> 0 < freq ?t1 m"
    unfolding n1 F(8) using d(5) fr_old by auto
  have 6: "\<forall>m\<in>nodes ?t1. parent (heap ?t1 m) \<noteq> Some m"
  proof
    fix m assume m: "m \<in> nodes ?t1"
    consider "m = ?B" | "m = ?N" | "m = ?T" | "m \<in> nodes t" "m \<noteq> ?T"
      using m unfolding n1 by blast
    then show "parent (heap ?t1 m) \<noteq> Some m"
    proof cases
      case 1
      show ?thesis unfolding 1 F(1) using pB by simp
    next
      case 2
      show ?thesis unfolding 2 F(1) by simp
    next
      case 3
      show ?thesis unfolding 3 pa_old[OF od(4)] using TB by simp
    next
      case 4
      from d(6)[OF 4(1)] show ?thesis unfolding pa_old[OF 4(1)] using 4(2) by simp
    qed
  qed
  have N: "?N \<in> nodes ?t1" "?N \<noteq> top ?t1" "is_leaf ?t1 ?N" "freq ?t1 ?N = 0"
    unfolding n1 F(8) using TB leafN fr_N by simp_all
  have B: "parent (heap ?t1 ?N) = Some ?B" "parent (heap ?t1 (top ?t1)) = Some ?B" "freq ?t1 ?B = 0"
    unfolding F(8) using pa_old[OF od(4)] fr_B by (simp_all add: F(1))
  from add_start[OF 1 2 3 4 N B 5 6] add show ?thesis by blast
qed

text \<open>The first insertion, into the tree \<open>HFinit\<close> builds, and the update after it.\<close>

lemma first_insert:
  "\<exists>t1. HFadd (HFinit tab) x = Some (t1, 2) \<and> HFupdate t1 (Some 2) = Some (after_first tab x 1)"
proof -
  have a: "HFadd (HFinit tab) x =
      Some (\<lparr>heap = (\<lambda>_. empty_node)
         (Suc 0 := \<lparr>high = None, low = None, parent = Some 0, frequency = 0, nterm = ESCAPE_SEQUENCE\<rparr>,
          2 := \<lparr>high = None, low = None, parent = Some 0, frequency = 0, nterm = x\<rparr>,
          0 := \<lparr>high = Some 2, low = Some (Suc 0), parent = None, frequency = 0, nterm = Null\<rparr>),
      nalloc = 3, codes = 0, top = Suc 0, terms = tab(x \<mapsto> Some 2), blockList = [Suc 0, 2, 0]\<rparr>, 2)"
    by (simp add: HFinit_def HFadd_def new_node_def Let_def HTstore_def
        HTsetPtr_def HTinsert_def BLinit_def)
  show ?thesis
    unfolding a
    by (simp add: HFupdate_Some HFsuccessor_def freq_def related_def BLswap_def after_first_def)
qed

lemma after_first_inv:
  assumes "fresh_table tab" and "0 < k"
  shows "tree_inv (after_first tab x k)"
proof -
  let ?t = "after_first tab x k"
  have n: "nodes ?t = {0, Suc 0, 2}"
    by (auto simp: nodes_def after_first_def)
  have 1: "order_ok ?t"
    unfolding order_ok_def n by (simp add: after_first_def freq_def)
  have 2: "links_ok ?t"
    unfolding links_ok_def n by (simp add: after_first_def is_leaf_def)
  have tab: "tab y \<noteq> Some (Some m)" for y m
    using assms(1) by (auto simp: fresh_table_def HTgetPtr_def split: option.splits)
  have 3: "table_ok ?t"
    unfolding table_ok_def n using tab by (simp add: after_first_def is_leaf_def)
  have 4: "weights_ok ?t None False"
    unfolding weights_ok_def n by (simp add: after_first_def freq_def)
  have 5: "\<forall>m\<in>nodes ?t. m \<noteq> top ?t \<longrightarrow> 0 < freq ?t m"
    unfolding n using assms(2) by (simp add: after_first_def freq_def)
  have 6: "\<forall>m\<in>nodes ?t. parent (heap ?t m) \<noteq> Some m"
    unfolding n by (simp add: after_first_def)
  from 1 2 3 4 5 6 show ?thesis
    unfolding tree_inv_def by (intro conjI)
qed

text \<open>Inserting a symbol and updating from its leaf: both return, whatever the symbol.\<close>

lemma add_update_total:
  assumes "engine_inv t"
  shows "\<exists>t1 N t2. HFadd t x = Some (t1, N) \<and> HFupdate t1 (Some N) = Some t2 \<and> tree_inv t2"
proof -
  from assms consider tab where "fresh_table tab" "t = HFinit tab" | "tree_inv t"
    unfolding engine_inv_def by blast
  then show ?thesis
  proof cases
    case 1
    from first_insert[of tab x] after_first_inv[OF 1(1), of 1 x] show ?thesis
      unfolding 1(2) by auto
  next
    case 2
    from normal_insert_start[OF 2, of x] obtain t1 r where
      a: "HFadd t x = Some (t1, Suc (nalloc t))"
      and u: "update_inv t1 (Some (Suc (nalloc t))) {} r"
      by blast
    from HFupdate_total[OF u] a show ?thesis by blast
  qed
qed

text \<open>Updating from the leaf of a known symbol returns.\<close>

lemma leaf_update_total:
  assumes "tree_inv t" and "n \<in> nodes t" and "n \<noteq> top t" and "is_leaf t n"
  shows "\<exists>t2. HFupdate t (Some n) = Some t2 \<and> tree_inv t2"
  using HFupdate_total[OF known_start[OF assms]] by blast

lemma fresh_no_pointer:
  assumes "fresh_table tab"
  shows "\<not> (HTmember tab x \<and> HTgetPtr tab x \<noteq> None)"
  using assms by (simp add: fresh_table_def)

lemma engine_inv_cases:
  assumes "engine_inv t"
  obtains tab where "fresh_table tab" "t = HFinit tab" | "tree_inv t"
  using assms unfolding engine_inv_def by blast

lemma encode_term_inv:
  assumes e: "engine_inv t" and r: "encode_term bs t x lz = Some (ret, bs', t')"
  shows "tree_inv t'"
proof (cases "HTmember (terms t) x \<and> HTgetPtr (terms t) x \<noteq> None")
  case True
  then obtain n where n: "terms t x = Some (Some n)"
    by (auto simp: HTgetPtr_def HTmember_def split: option.splits)
  from e have inv: "tree_inv t"
  proof (cases rule: engine_inv_cases)
    case (1 tab)
    with fresh_no_pointer[OF 1(1), of x] True show ?thesis by (simp add: HFinit_def)
  qed
  from tree_invD(3)[OF inv] n have "n \<in> nodes t" "n \<noteq> top t" "is_leaf t n"
    unfolding table_ok_def by blast+
  from leaf_update_total[OF inv this] obtain t2 where
    "HFupdate t (Some n) = Some t2" "tree_inv t2" by blast
  with r True n show ?thesis
    by (auto simp: encode_term_def HTgetPtr_def split: option.splits)
next
  case False
  from add_update_total[OF e, of x] obtain t1 N t2 where
    "HFadd t x = Some (t1, N)" "HFupdate t1 (Some N) = Some t2" "tree_inv t2" by blast
  with r False show ?thesis
    by (auto simp: encode_term_def split: option.splits)
qed

lemma HFencode_inv:
  assumes "engine_inv t" and "HFencode bs t s = Some (ret, bs', t')"
  shows "tree_inv t'"
proof (cases s)
  case (TermSym trm)
  with assms(2) show ?thesis
    by (auto simp: HFencodeATerm_def Let_def intro: encode_term_inv[OF assms(1)])
next
  case (IndexSym i)
  with assms(2) show ?thesis
    by (auto simp: HFencodeIndex_def intro: encode_term_inv[OF assms(1)])
qed

text \<open>The descent stays among the nodes of the tree.\<close>

lemma descend_nodes_aux:
  "descend t cur fp = Leaf n fp' \<Longrightarrow>
   (\<forall>u\<in>nodes t. \<forall>m. low (heap t u) = Some m \<or> high (heap t u) = Some m \<longrightarrow> m \<in> nodes t) \<Longrightarrow>
   (\<forall>c. cur = Some c \<longrightarrow> c \<in> nodes t) \<Longrightarrow> n \<in> nodes t"
proof (induction t cur fp rule: descend.induct)
  case (1 t fp)
  then show ?case by simp
next
  case (2 t current fp)
  show ?case
  proof (cases "high (heap t current) = None \<and> low (heap t current) = None")
    case True
    with 2(2,4) show ?thesis by simp
  next
    case False
    note st = 2(2)[unfolded descend_step[OF False]]
    from st obtain a where a: "BSreadBit fp = Some a"
      by (cases "BSreadBit fp") simp_all
    obtain b fp1 where rb: "BSreadBit fp = Some (b, fp1)"
      using a by (cases a) simp
    from st have d: "descend t (if \<not> b then low (heap t current) else high (heap t current)) fp1 = Leaf n fp'"
      unfolding rb by simp
    from 2(4) have cn: "current \<in> nodes t" by simp
    have "c \<in> nodes t"
      if "(if \<not> b then low (heap t current) else high (heap t current)) = Some c" for c
    proof -
      from that have "low (heap t current) = Some c \<or> high (heap t current) = Some c"
        by (cases b) simp_all
      with 2(3) cn show ?thesis by blast
    qed
    then have "\<forall>c. (if \<not> b then low (heap t current) else high (heap t current)) = Some c \<longrightarrow> c \<in> nodes t"
      by blast
    from 2(1)[OF False rb refl d 2(3) this] show ?thesis .
  qed
qed

lemma descend_nodes:
  assumes "\<forall>u\<in>nodes t. \<forall>m. low (heap t u) = Some m \<or> high (heap t u) = Some m \<longrightarrow> m \<in> nodes t"
    and "descend t cur fp = Leaf n fp'" and "\<forall>c. cur = Some c \<longrightarrow> c \<in> nodes t"
  shows "n \<in> nodes t"
  using descend_nodes_aux[OF assms(2,1,3)] .

lemma engine_closed:
  assumes "engine_inv t"
  shows "\<forall>u\<in>nodes t. \<forall>m. low (heap t u) = Some m \<or> high (heap t u) = Some m \<longrightarrow> m \<in> nodes t"
    and "codes t \<in> nodes t" and "nterm (heap t (top t)) = ESCAPE_SEQUENCE"
    and "\<And>n. n \<in> nodes t \<Longrightarrow> is_leaf t n \<Longrightarrow> n \<noteq> top t \<Longrightarrow> tree_inv t"
proof -
  show "\<forall>u\<in>nodes t. \<forall>m. low (heap t u) = Some m \<or> high (heap t u) = Some m \<longrightarrow> m \<in> nodes t"
    using assms
  proof (cases rule: engine_inv_cases)
    case (1 tab)
    show ?thesis unfolding 1(2) by (simp add: HFinit_def nodes_def BLinit_def)
  next
    case 2
    from links_child[OF tree_invD(2)[OF 2]] show ?thesis by blast
  qed
  show "codes t \<in> nodes t"
    using assms
  proof (cases rule: engine_inv_cases)
    case (1 tab)
    show ?thesis unfolding 1(2) by (simp add: HFinit_def nodes_def BLinit_def)
  next
    case 2
    from links_basic(1)[OF tree_invD(2)[OF 2]] show ?thesis .
  qed
  show "nterm (heap t (top t)) = ESCAPE_SEQUENCE"
    using assms
  proof (cases rule: engine_inv_cases)
    case (1 tab)
    show ?thesis unfolding 1(2) by (simp add: HFinit_def)
  next
    case 2
    from links_basic(5)[OF tree_invD(2)[OF 2]] show ?thesis .
  qed
  show "tree_inv t" if "n \<in> nodes t" "is_leaf t n" "n \<noteq> top t" for n
    using assms
  proof (cases rule: engine_inv_cases)
    case (1 tab)
    with that show ?thesis by (auto simp: HFinit_def nodes_def BLinit_def is_leaf_def)
  qed
qed

text \<open>What a decoder does once the descent has reached a leaf.\<close>

lemma at_leaf_cases:
  assumes e: "engine_inv t" and n: "n \<in> nodes t" "is_leaf t n"
  shows "(nterm (heap t n) = ESCAPE_SEQUENCE
            \<or> (\<exists>t2. HFupdate t (Some n) = Some t2 \<and> tree_inv t2))"
proof (cases "nterm (heap t n) = ESCAPE_SEQUENCE")
  case False
  with engine_closed(3)[OF e] have nt: "n \<noteq> top t" by auto
  from engine_closed(4)[OF e n nt] have "tree_inv t" .
  from leaf_update_total[OF this n(1) nt n(2)] show ?thesis by blast
qed simp

lemma decodeATerm_loop_inv:
  assumes e: "engine_inv t" and n: "n \<in> nodes t" "is_leaf t n"
    and r: "HFdecodeATerm_loop fp t trm (Some n) = Some (ret, out, fp', t')"
  shows "engine_inv t'"
proof -
  from n(2) have lf: "high (heap t n) = None" "low (heap t n) = None"
    by (simp_all add: is_leaf_def)
  note r' = r[unfolded HFdecodeATerm_loop_leaf[OF lf]]
  show ?thesis
  proof (cases "nterm (heap t n) = ESCAPE_SEQUENCE")
    case True
    show ?thesis
    proof (cases "LZreadATerm fp")
      case None
      with r' True e show ?thesis by simp
    next
      case (Some a)
      obtain x fp1 where a: "a = (x, fp1)" by (cases a)
      from add_update_total[OF e, of x] obtain t1 N t2 where
        "HFadd t x = Some (t1, N)" "HFupdate t1 (Some N) = Some t2" "tree_inv t2" by blast
      with r' True Some a show ?thesis
        by (auto simp: engine_inv_def split: if_splits)
    qed
  next
    case False
    with at_leaf_cases[OF e n] obtain t2 where
      "HFupdate t (Some n) = Some t2" "tree_inv t2" by blast
    with r' False show ?thesis
      by (auto simp: engine_inv_def split: if_splits)
  qed
qed

lemma decodeIndex_loop_inv:
  assumes e: "engine_inv t" and n: "n \<in> nodes t" "is_leaf t n"
    and r: "HFdecodeIndex_loop NO_INT fp t idx (Some n) = Some (ret, out, fp', t')"
  shows "engine_inv t'"
proof -
  from n(2) have lf: "high (heap t n) = None" "low (heap t n) = None"
    by (simp_all add: is_leaf_def)
  note r' = r[unfolded HFdecodeIndex_loop_leaf[OF lf]]
  show ?thesis
  proof (cases "nterm (heap t n) = ESCAPE_SEQUENCE")
    case True
    show ?thesis
    proof (cases "LZreadInt fp")
      case None
      with r' True e show ?thesis by simp
    next
      case (Some a)
      obtain x fp1 where a: "a = (x, fp1)" by (cases a)
      from add_update_total[OF e, of "AInt x"] obtain t1 N t2 where
        "HFadd t (AInt x) = Some (t1, N)" "HFupdate t1 (Some N) = Some t2" "tree_inv t2" by blast
      with r' True Some a show ?thesis
        by (auto simp: engine_inv_def split: if_splits)
    qed
  next
    case False
    with at_leaf_cases[OF e n] obtain t2 where
      "HFupdate t (Some n) = Some t2" "tree_inv t2" by blast
    with r' False show ?thesis
      by (auto simp: engine_inv_def split: if_splits option.splits)
  qed
qed

lemma decodeATerm_inv:
  assumes e: "engine_inv t" and r: "HFdecodeATerm fp t trm = Some (ret, out, fp', t')"
  shows "engine_inv t'"
proof (cases "descend t (Some (codes t)) fp")
  case (Leaf n fp1)
  from descend_nodes[OF engine_closed(1)[OF e] Leaf] engine_closed(2)[OF e]
  have n: "n \<in> nodes t" by simp
  from descend_leaf[OF Leaf] have lf: "is_leaf t n" by (simp add: is_leaf_def)
  from r decodeATerm_at_leaf[OF Leaf, of trm]
  have "HFdecodeATerm_loop fp1 t trm (Some n) = Some (ret, out, fp', t')" by simp
  from decodeATerm_loop_inv[OF e n lf this] show ?thesis .
next
  case (Exhausted fp1)
  with r e show ?thesis
    by (simp add: HFdecodeATerm_def HFdecodeATerm_loop_descend[of fp])
next
  case (Fell fp1)
  with r e show ?thesis
    by (simp add: HFdecodeATerm_def HFdecodeATerm_loop_descend[of fp])
qed

lemma decodeIndex_inv:
  assumes e: "engine_inv t" and r: "HFdecodeIndex NO_INT fp t idx = Some (ret, out, fp', t')"
  shows "engine_inv t'"
proof (cases "descend t (Some (codes t)) fp")
  case (Leaf n fp1)
  from descend_nodes[OF engine_closed(1)[OF e] Leaf] engine_closed(2)[OF e]
  have n: "n \<in> nodes t" by simp
  from descend_leaf[OF Leaf] have lf: "is_leaf t n" by (simp add: is_leaf_def)
  from r decodeIndex_at_leaf[OF Leaf, of NO_INT idx]
  have "HFdecodeIndex_loop NO_INT fp1 t idx (Some n) = Some (ret, out, fp', t')" by simp
  from decodeIndex_loop_inv[OF e n lf this] show ?thesis .
next
  case (Exhausted fp1)
  with r e show ?thesis
    by (simp add: HFdecodeIndex_def HFdecodeIndex_loop_descend[of _ fp])
next
  case (Fell fp1)
  with r e show ?thesis
    by (simp add: HFdecodeIndex_def HFdecodeIndex_loop_descend[of _ fp])
qed

text \<open>Every state a caller can reach is a well-formed engine.\<close>

lemma reachable_inv:
  assumes "reachable t"
  shows "engine_inv t"
  using assms
proof (induction rule: reachable.induct)
  case (init tab)
  then show ?case unfolding engine_inv_def by blast
next
  case (encode t bs s r bs' t')
  from HFencode_inv[OF encode.IH encode.hyps(2)] show ?case
    unfolding engine_inv_def by simp
next
  case (decodeATerm t fp trm r out fp' t')
  from decodeATerm_inv[OF decodeATerm.IH decodeATerm.hyps(2)] show ?case .
next
  case (decodeIndex t NO_INT fp idx r iout fp' t')
  from decodeIndex_inv[OF decodeIndex.IH decodeIndex.hyps(2)] show ?case .
qed

text \<open>
  The code \<open>HFwriteCode\<close> writes for a node is the path from the root to it: the descent of
  the decoders, fed with that code, arrives at the node.
\<close>

lemma code_path_aux:
  assumes "tree_inv t" and "m \<in> nodes t" and "\<forall>u\<in>nodes t. rank t u < B" and "k = B - rank t m"
  shows "\<exists>cd. (\<forall>bs. HFwriteCode bs t m = Some (bs @ map Bit cd))
           \<and> (\<forall>rest. descend t (Some (codes t)) (map Bit cd @ rest) = descend t (Some m) rest)"
  using assms(2,4)
proof (induction k arbitrary: m rule: less_induct)
  case (less k)
  note l = tree_invD(2)[OF assms(1)]
  show ?case
  proof (cases "parent (heap t m)")
    case None
    from links_root[OF l less.prems(1) None] have "m = codes t" .
    with writeCode_root[OF None] have
      "(\<forall>bs. HFwriteCode bs t m = Some (bs @ map Bit []))
        \<and> (\<forall>rest. descend t (Some (codes t)) (map Bit [] @ rest) = descend t (Some m) rest)"
      by simp
    then show ?thesis by blast
  next
    case (Some p)
    from links_parent[OF l less.prems(1) Some] have pn: "p \<in> nodes t"
      and ch: "low (heap t p) = Some m \<or> high (heap t p) = Some m" by auto
    from rank_strict[OF assms(1) less.prems(1) Some] have "rank t m < rank t p" .
    with assms(3) pn less.prems(2) have lt: "B - rank t p < k" by auto
    from less.IH[OF lt pn refl] obtain cdp where
      w: "\<And>bs. HFwriteCode bs t p = Some (bs @ map Bit cdp)"
      and d: "\<And>rest. descend t (Some (codes t)) (map Bit cdp @ rest) = descend t (Some p) rest"
      by blast
    let ?b = "high (heap t p) = Some m"
    have w': "HFwriteCode bs t m = Some (bs @ map Bit (cdp @ [?b]))" for bs
      unfolding writeCode_child[OF Some] w by (simp add: BSwriteBit_def)
    from ch have nl: "\<not> (high (heap t p) = None \<and> low (heap t p) = None)" by auto
    have nx: "(if \<not> ?b then low (heap t p) else high (heap t p)) = Some m"
      using ch by auto
    have "descend t (Some p) (Bit ?b # rest) = descend t (Some m) rest" for rest
      unfolding descend_step[OF nl] using nx by simp
    then have d': "descend t (Some (codes t)) (map Bit (cdp @ [?b]) @ rest) = descend t (Some m) rest"
      for rest
      using d[of "Bit ?b # rest"] by simp
    from w' d' show ?thesis by blast
  qed
qed

lemma leaf_path:
  assumes "tree_inv t" and "n \<in> nodes t" and "is_leaf t n"
  shows "\<exists>cd. (\<forall>bs. HFwriteCode bs t n = Some (bs @ map Bit cd))
           \<and> (\<forall>rest. descend t (Some (codes t)) (map Bit cd @ rest) = Leaf n rest)"
proof -
  have "finite (rank t ` nodes t)" by (simp add: nodes_def)
  then have "\<forall>u\<in>nodes t. rank t u < Suc (Max (rank t ` nodes t))"
    by (auto simp: less_Suc_eq_le)
  from code_path_aux[OF assms(1,2) this refl] obtain cd where
    w: "\<forall>bs. HFwriteCode bs t n = Some (bs @ map Bit cd)"
    and d: "\<And>rest. descend t (Some (codes t)) (map Bit cd @ rest) = descend t (Some n) rest"
    by blast
  from assms(3) have "descend t (Some n) rest = Leaf n rest" for rest
    by (simp add: is_leaf_def)
  with w d show ?thesis by auto
qed

lemma escape_path:
  assumes "engine_inv t"
  shows "\<exists>cd. (\<forall>bs. HFwriteCode bs t (top t) = Some (bs @ map Bit cd))
           \<and> (\<forall>rest. descend t (Some (codes t)) (map Bit cd @ rest) = Leaf (top t) rest)"
  using assms
proof (cases rule: engine_inv_cases)
  case (1 tab)
  have "HFwriteCode bs (HFinit tab) (top (HFinit tab)) = Some (bs @ map Bit [False])" for bs
    by (simp add: HFinit_def writeCode_root writeCode_child BSwriteBit_def)
  moreover have "descend (HFinit tab) (Some (codes (HFinit tab))) (map Bit [False] @ rest)
       = Leaf (top (HFinit tab)) rest" for rest
    by (simp add: HFinit_def descend_step)
  ultimately show ?thesis unfolding 1(2) by blast
next
  case 2
  from leaf_path[OF 2 order_okD(4)[OF tree_invD(1)[OF 2]] links_basic(4)[OF tree_invD(2)[OF 2]]]
  show ?thesis .
qed

text \<open>
  One symbol through \<open>encode_term\<close>: the call returns; what it appends to the stream is the
  code of a leaf, followed by the literal when the leaf is the escape leaf.
\<close>

lemma encode_term_step:
  assumes e: "engine_inv t"
  shows "\<exists>ret w t' cd n. encode_term bs t x lz = Some (ret, w, t') \<and> tree_inv t'
      \<and> (\<forall>rest. descend t (Some (codes t)) (map Bit cd @ rest) = Leaf n rest)
      \<and> ((ret = 1 \<and> w = bs @ map Bit cd \<and> nterm (heap t n) = x \<and> n \<noteq> top t
             \<and> HFupdate t (Some n) = Some t')
         \<or> (ret = 0 \<and> w = lz (bs @ map Bit cd) \<and> n = top t
             \<and> (\<exists>t1 N. HFadd t x = Some (t1, N) \<and> HFupdate t1 (Some N) = Some t')))"
proof (cases "HTmember (terms t) x \<and> HTgetPtr (terms t) x \<noteq> None")
  case True
  then obtain n where n: "terms t x = Some (Some n)"
    by (auto simp: HTgetPtr_def HTmember_def split: option.splits)
  from e have inv: "tree_inv t"
  proof (cases rule: engine_inv_cases)
    case (1 tab)
    with fresh_no_pointer[OF 1(1), of x] True show ?thesis by (simp add: HFinit_def)
  qed
  from tree_invD(3)[OF inv] n have nn: "n \<in> nodes t" "n \<noteq> top t" "is_leaf t n"
    and nx: "nterm (heap t n) = x"
    unfolding table_ok_def by blast+
  from leaf_update_total[OF inv nn] obtain t2 where
    u: "HFupdate t (Some n) = Some t2" "tree_inv t2" by blast
  from leaf_path[OF inv nn(1,3)] obtain cd where
    w: "\<And>bs. HFwriteCode bs t n = Some (bs @ map Bit cd)"
    and d: "\<forall>rest. descend t (Some (codes t)) (map Bit cd @ rest) = Leaf n rest"
    by blast
  have "encode_term bs t x lz = Some (1, bs @ map Bit cd, t2)"
    using True n u(1) w by (simp add: encode_term_def HTgetPtr_def)
  with u d nx nn(2) show ?thesis by blast
next
  case False
  from add_update_total[OF e, of x] obtain t1 N t2 where
    a: "HFadd t x = Some (t1, N)" "HFupdate t1 (Some N) = Some t2" "tree_inv t2" by blast
  from escape_path[OF e] obtain cd where
    w: "\<And>bs. HFwriteCode bs t (top t) = Some (bs @ map Bit cd)"
    and d: "\<forall>rest. descend t (Some (codes t)) (map Bit cd @ rest) = Leaf (top t) rest"
    by blast
  have "encode_term bs t x lz = Some (0, lz (bs @ map Bit cd), t2)"
    using False a(1,2) w
    by (simp add: encode_term_def del: de_Morgan_conj)
  with a d show ?thesis by blast
qed

text \<open>The decoders, fed with what \<open>encode_term\<close> wrote, on the tree it started from.\<close>

lemma decodeATerm_step:
  assumes e: "engine_inv t" and x: "x \<noteq> ESCAPE_SEQUENCE"
  shows "\<exists>ret cw t'. encode_term bs t x (\<lambda>b. LZwriteATerm b x) = Some (ret, bs @ cw, t')
      \<and> tree_inv t'
      \<and> (\<forall>rest trm. HFdecodeATerm (cw @ rest) t trm =
            Some (if x = NO_ATERM then (0, Null, rest, t') else (1, x, rest, t')))"
proof -
  from encode_term_step[OF e, of bs x "\<lambda>b. LZwriteATerm b x"] obtain ret w t' cd n where
    enc: "encode_term bs t x (\<lambda>b. LZwriteATerm b x) = Some (ret, w, t')" and inv: "tree_inv t'"
    and d: "\<And>rest. descend t (Some (codes t)) (map Bit cd @ rest) = Leaf n rest"
    and c: "(ret = 1 \<and> w = bs @ map Bit cd \<and> nterm (heap t n) = x \<and> n \<noteq> top t
             \<and> HFupdate t (Some n) = Some t')
         \<or> (ret = 0 \<and> w = LZwriteATerm (bs @ map Bit cd) x \<and> n = top t
             \<and> (\<exists>t1 N. HFadd t x = Some (t1, N) \<and> HFupdate t1 (Some N) = Some t'))"
    by blast
  from descend_leaf[OF d] have lf: "high (heap t n) = None" "low (heap t n) = None" by simp_all
  from c show ?thesis
  proof
    assume k: "ret = 1 \<and> w = bs @ map Bit cd \<and> nterm (heap t n) = x \<and> n \<noteq> top t
             \<and> HFupdate t (Some n) = Some t'"
    have "HFdecodeATerm (map Bit cd @ rest) t trm =
            Some (if x = NO_ATERM then (0, Null, rest, t') else (1, x, rest, t'))" for rest trm
      unfolding decodeATerm_at_leaf[OF d] HFdecodeATerm_loop_leaf[OF lf]
      using k x by simp
    with enc inv k show ?thesis by blast
  next
    assume u: "ret = 0 \<and> w = LZwriteATerm (bs @ map Bit cd) x \<and> n = top t
             \<and> (\<exists>t1 N. HFadd t x = Some (t1, N) \<and> HFupdate t1 (Some N) = Some t')"
    then obtain t1 N where a: "HFadd t x = Some (t1, N)" "HFupdate t1 (Some N) = Some t'"
      by blast
    from u engine_closed(3)[OF e] have esc: "nterm (heap t n) = ESCAPE_SEQUENCE" by simp
    have "HFdecodeATerm ((map Bit cd @ [LitTerm x]) @ rest) t trm =
            Some (if x = NO_ATERM then (0, Null, rest, t') else (1, x, rest, t'))" for rest trm
      using decodeATerm_at_leaf[OF d, of "LitTerm x # rest" trm] a esc
      by (simp add: HFdecodeATerm_loop_leaf[OF lf])
    moreover from u have "w = bs @ (map Bit cd @ [LitTerm x])"
      by (simp add: LZwriteATerm_def)
    ultimately show ?thesis using enc inv by blast
  qed
qed

lemma decodeIndex_step:
  assumes e: "engine_inv t"
  shows "\<exists>ret cw t'. encode_term bs t (AInt i) (\<lambda>b. LZwriteInt b i) = Some (ret, bs @ cw, t')
      \<and> tree_inv t'
      \<and> (\<forall>rest idx. HFdecodeIndex NO_INT (cw @ rest) t idx =
            Some (if i \<noteq> NO_INT then 1 else 0, i, rest, t'))"
proof -
  have x: "AInt i \<noteq> ESCAPE_SEQUENCE" by (simp add: ESCAPE_SEQUENCE_def)
  from encode_term_step[OF e, of bs "AInt i" "\<lambda>b. LZwriteInt b i"] obtain ret w t' cd n where
    enc: "encode_term bs t (AInt i) (\<lambda>b. LZwriteInt b i) = Some (ret, w, t')" and inv: "tree_inv t'"
    and d: "\<And>rest. descend t (Some (codes t)) (map Bit cd @ rest) = Leaf n rest"
    and c: "(ret = 1 \<and> w = bs @ map Bit cd \<and> nterm (heap t n) = AInt i \<and> n \<noteq> top t
             \<and> HFupdate t (Some n) = Some t')
         \<or> (ret = 0 \<and> w = LZwriteInt (bs @ map Bit cd) i \<and> n = top t
             \<and> (\<exists>t1 N. HFadd t (AInt i) = Some (t1, N) \<and> HFupdate t1 (Some N) = Some t'))"
    by blast
  from descend_leaf[OF d] have lf: "high (heap t n) = None" "low (heap t n) = None" by simp_all
  from c show ?thesis
  proof
    assume k: "ret = 1 \<and> w = bs @ map Bit cd \<and> nterm (heap t n) = AInt i \<and> n \<noteq> top t
             \<and> HFupdate t (Some n) = Some t'"
    have "HFdecodeIndex NO_INT (map Bit cd @ rest) t idx =
            Some (if i \<noteq> NO_INT then 1 else 0, i, rest, t')" for rest idx
      unfolding decodeIndex_at_leaf[OF d] HFdecodeIndex_loop_leaf[OF lf]
      using k x by simp
    with enc inv k show ?thesis by blast
  next
    assume u: "ret = 0 \<and> w = LZwriteInt (bs @ map Bit cd) i \<and> n = top t
             \<and> (\<exists>t1 N. HFadd t (AInt i) = Some (t1, N) \<and> HFupdate t1 (Some N) = Some t')"
    then obtain t1 N where a: "HFadd t (AInt i) = Some (t1, N)" "HFupdate t1 (Some N) = Some t'"
      by blast
    from u engine_closed(3)[OF e] have esc: "nterm (heap t n) = ESCAPE_SEQUENCE" by simp
    have "HFdecodeIndex NO_INT ((map Bit cd @ [LitInt i]) @ rest) t idx =
            Some (if i \<noteq> NO_INT then 1 else 0, i, rest, t')" for rest idx
      using decodeIndex_at_leaf[OF d, of NO_INT "LitInt i # rest" idx] a esc
      by (simp add: HFdecodeIndex_loop_leaf[OF lf])
    moreover from u have "w = bs @ (map Bit cd @ [LitInt i])"
      by (simp add: LZwriteInt_def)
    ultimately show ?thesis using enc inv by blast
  qed
qed

section \<open>Sequences of symbols\<close>

lemma fresh_empty: "fresh_table Map.empty"
  by (simp add: fresh_table_def HTgetPtr_def)

lemma engine_inv_init: "fresh_table tab \<Longrightarrow> engine_inv (HFinit tab)"
  unfolding engine_inv_def by blast

lemma engine_inv_tree: "tree_inv t \<Longrightarrow> engine_inv t"
  unfolding engine_inv_def by blast



text \<open>One symbol that is not reserved, through the encoder and back through the decoder.\<close>

lemma symbol_step:
  assumes e: "engine_inv t" and p: "plain NO_INT s"
  shows "\<exists>ret cw t'. HFencode bs t s = Some (ret, bs @ cw, t') \<and> tree_inv t'
           \<and> (\<forall>rest. HFdecode NO_INT (cw @ rest) t s = Some (1, s, rest, t'))"
proof (cases s)
  case (TermSym x)
  with p have x: "x \<noteq> Null" "x \<noteq> NO_ATERM" "x \<noteq> ESCAPE_SEQUENCE" by simp_all
  from decodeATerm_step[OF e x(3), of bs] obtain ret cw t' where
    "encode_term bs t x (\<lambda>b. LZwriteATerm b x) = Some (ret, bs @ cw, t')" "tree_inv t'"
    "\<forall>rest trm. HFdecodeATerm (cw @ rest) t trm =
            Some (if x = NO_ATERM then (0, Null, rest, t') else (1, x, rest, t'))"
    by blast
  with x(1,2) have "HFencode bs t s = Some (ret, bs @ cw, t') \<and> tree_inv t'
           \<and> (\<forall>rest. HFdecode NO_INT (cw @ rest) t s = Some (1, s, rest, t'))"
    unfolding TermSym by (simp add: HFencodeATerm_def)
  then show ?thesis by blast
next
  case (IndexSym i)
  with p have i: "i \<noteq> NO_INT" by simp
  from decodeIndex_step[OF e, of bs i NO_INT] obtain ret cw t' where
    "encode_term bs t (AInt i) (\<lambda>b. LZwriteInt b i) = Some (ret, bs @ cw, t')" "tree_inv t'"
    "\<forall>rest idx. HFdecodeIndex NO_INT (cw @ rest) t idx =
            Some (if i \<noteq> NO_INT then 1 else 0, i, rest, t')"
    by blast
  with i have "HFencode bs t s = Some (ret, bs @ cw, t') \<and> tree_inv t'
           \<and> (\<forall>rest. HFdecode NO_INT (cw @ rest) t s = Some (1, s, rest, t'))"
    unfolding IndexSym by (simp add: HFencodeIndex_def)
  then show ?thesis by blast
qed

lemma sequence_round_trip:
  assumes "engine_inv t" and "\<forall>s\<in>set ss. plain NO_INT s"
  shows "\<exists>cw t'. encode_all bs t ss = Some (bs @ cw, t')
           \<and> (\<forall>rest. decode_all NO_INT (cw @ rest) t ss = Some (map (\<lambda>s. (1, s)) ss, rest, t'))"
  using assms
proof (induction ss arbitrary: bs t)
  case Nil
  have "encode_all bs t [] = Some (bs @ [], t)
      \<and> (\<forall>rest. decode_all NO_INT ([] @ rest) t [] = Some (map (\<lambda>s. (1, s)) [], rest, t))"
    by simp
  then show ?case by blast
next
  case (Cons s ss)
  from Cons.prems(2) have ps: "plain NO_INT s" and pss: "\<forall>s\<in>set ss. plain NO_INT s" by simp_all
  from symbol_step[OF Cons.prems(1) ps, of bs] obtain ret cw t1 where
    e: "HFencode bs t s = Some (ret, bs @ cw, t1)" and i1: "tree_inv t1"
    and d: "\<And>rest. HFdecode NO_INT (cw @ rest) t s = Some (1, s, rest, t1)"
    by blast
  from Cons.IH[OF engine_inv_tree[OF i1] pss, of "bs @ cw"] obtain cw' t' where
    e': "encode_all (bs @ cw) t1 ss = Some ((bs @ cw) @ cw', t')"
    and d': "\<And>rest. decode_all NO_INT (cw' @ rest) t1 ss = Some (map (\<lambda>s. (1, s)) ss, rest, t')"
    by blast
  have "encode_all bs t (s # ss) = Some (bs @ (cw @ cw'), t')"
    using e e' by simp
  moreover have "decode_all NO_INT ((cw @ cw') @ rest) t (s # ss)
      = Some (map (\<lambda>s. (1, s)) (s # ss), rest, t')" for rest
    using d[of "cw' @ rest"] d'[of rest] by simp
  ultimately show ?case by blast
qed

section \<open>Claims settled on whole runs of the engine\<close>




text \<open>
  Claim C9. In every state a caller can reach, encoding the null term is encoding
  \<open>NO_ATERM\<close>, and the call returns. What it appends to the stream makes \<open>HFdecodeATerm\<close>,
  on the tree the encoder started from, return 0 with the null term in its output
  parameter, whatever follows in the stream and whatever the output parameter held; the
  decoder ends in the tree the encoder ended in.
\<close>

theorem null_term_is_sentinel:
  assumes "reachable t"
  shows "HFencodeATerm bs t Null = HFencodeATerm bs t NO_ATERM
       \<and> (\<exists>ret cw t'. HFencodeATerm bs t Null = Some (ret, bs @ cw, t')
             \<and> (\<forall>rest trm. HFdecodeATerm (cw @ rest) t trm = Some (0, Null, rest, t')))"
proof -
  from reachable_inv[OF assms] have e: "engine_inv t" .
  have eq: "HFencodeATerm bs t Null = encode_term bs t NO_ATERM (\<lambda>b. LZwriteATerm b NO_ATERM)"
    by (simp add: HFencodeATerm_def)
  have eq': "HFencodeATerm bs t NO_ATERM = encode_term bs t NO_ATERM (\<lambda>b. LZwriteATerm b NO_ATERM)"
    by (simp add: HFencodeATerm_def)
  from decodeATerm_step[OF e sentinels_differ(1), of bs] obtain ret cw t' where
    "encode_term bs t NO_ATERM (\<lambda>b. LZwriteATerm b NO_ATERM) = Some (ret, bs @ cw, t')"
    "\<forall>rest trm. HFdecodeATerm (cw @ rest) t trm = Some (0, Null, rest, t')"
    by auto
  then show ?thesis unfolding eq eq' by blast
qed

text \<open>The null term as the second symbol, after the index 1.\<close>

theorem null_term_witness:
  "(case HFencode [] (HFinit Map.empty) (IndexSym 1) of
      None \<Rightarrow> False
    | Some (r, bs, t) \<Rightarrow>
        reachable t
        \<and> map_option (\<lambda>(r, w, t'). (r, w)) (HFencodeATerm bs t Null)
            = Some (0, bs @ [Bit False, LitTerm NO_ATERM])
        \<and> outcome (HFdecodeATerm [Bit False, LitTerm NO_ATERM] t (AInt 7)) = Some (0, Null))"
proof -
  have "HFencode [] (HFinit Map.empty) (IndexSym 1) \<noteq> None"
    by code_simp
  then obtain r bs t where e: "HFencode [] (HFinit Map.empty) (IndexSym 1) = Some (r, bs, t)"
    by (cases "HFencode [] (HFinit Map.empty) (IndexSym 1)") auto
  have rt: "reachable t"
    by (rule reachable.encode[OF reachable.init[OF fresh_empty] e])
  have "(case HFencode [] (HFinit Map.empty) (IndexSym 1) of None \<Rightarrow> False
         | Some (r, bs, t) \<Rightarrow> map_option (\<lambda>(r, w, t'). (r, w)) (HFencodeATerm bs t Null)
            = Some (0, bs @ [Bit False, LitTerm NO_ATERM]))"
    by code_simp
  with e have w: "map_option (\<lambda>(r, w, t'). (r, w)) (HFencodeATerm bs t Null)
            = Some (0, bs @ [Bit False, LitTerm NO_ATERM])" by simp
  from null_term_is_sentinel[OF rt, of bs] obtain ret cw t' where
    enc: "HFencodeATerm bs t Null = Some (ret, bs @ cw, t')"
    and dec: "\<forall>rest trm. HFdecodeATerm (cw @ rest) t trm = Some (0, Null, rest, t')"
    by blast
  from w enc have "cw = [Bit False, LitTerm NO_ATERM]" by simp
  with dec[rule_format, of "[]" "AInt 7"] have
    "outcome (HFdecodeATerm [Bit False, LitTerm NO_ATERM] t (AInt 7)) = Some (0, Null)"
    by (simp add: outcome_def)
  with rt w show ?thesis unfolding e by simp
qed

text \<open>
  Claim C1, as stated. Three sequences that do not come back. The term \<open>NO_ATERM\<close> comes
  back as the null term with the return value 0. The term \<open>ESCAPE_SEQUENCE\<close> given twice
  comes back the first time; the second time the decoder takes its leaf for the escape
  leaf, finds no literal and returns 0. With \<open>NO_INT\<close> being 5, the index 5 is answered
  with the return value 0.
\<close>

theorem reserved_symbols_do_not_round_trip:
  "round_trip 0 Map.empty [TermSym NO_ATERM] = Some [(0, TermSym Null)]
   \<and> round_trip 0 Map.empty [TermSym ESCAPE_SEQUENCE, TermSym ESCAPE_SEQUENCE]
       = Some [(1, TermSym ESCAPE_SEQUENCE), (0, TermSym ESCAPE_SEQUENCE)]
   \<and> round_trip 5 Map.empty [IndexSym 5] = Some [(0, IndexSym 5)]"
  by code_simp

text \<open>
  Claim C1, amended. For every finite sequence of symbols none of which is reserved (no
  null term, no \<open>NO_ATERM\<close>, no \<open>ESCAPE_SEQUENCE\<close>, no index equal to \<open>NO_INT\<close>), encoding
  with an engine initialised on a table without leaves returns, and decoding the stream
  with an engine initialised in the same way, using the variant that matches each
  position, returns 1 at every position and yields the symbols in order.
\<close>

theorem round_trip_of_plain_symbols:
  assumes "fresh_table tab" and "\<forall>s\<in>set ss. plain NO_INT s"
  shows "round_trip NO_INT tab ss = Some (map (\<lambda>s. (1, s)) ss)"
proof -
  from sequence_round_trip[OF engine_inv_init[OF assms(1)] assms(2), of "[]"] obtain cw t' where
    "encode_all [] (HFinit tab) ss = Some ([] @ cw, t')"
    "\<forall>rest. decode_all NO_INT (cw @ rest) (HFinit tab) ss = Some (map (\<lambda>s. (1, s)) ss, rest, t')"
    by blast
  then have "encode_all [] (HFinit tab) ss = Some (cw, t')"
    "decode_all NO_INT cw (HFinit tab) ss = Some (map (\<lambda>s. (1, s)) ss, [], t')"
    by (simp, metis append_Nil2)
  then show ?thesis by (simp add: round_trip_def)
qed

text \<open>Indices and terms mixed, some of them repeated, with \<open>NO_INT\<close> being \<open>-1\<close>.\<close>

theorem round_trip_witness:
  "fresh_table Map.empty
   \<and> list_all (plain (-1)) [IndexSym 1, IndexSym 1, TermSym (Appl ''f'' [AInt 2]), IndexSym 2, TermSym (AInt 1)]
   \<and> round_trip (-1) Map.empty
        [IndexSym 1, IndexSym 1, TermSym (Appl ''f'' [AInt 2]), IndexSym 2, TermSym (AInt 1)]
       = Some [(1, IndexSym 1), (1, IndexSym 1), (1, TermSym (Appl ''f'' [AInt 2])),
               (1, IndexSym 2), (1, TermSym (AInt 1))]"
  using round_trip_of_plain_symbols[of Map.empty
      "[IndexSym 1, IndexSym 1, TermSym (Appl ''f'' [AInt 2]), IndexSym 2, TermSym (AInt 1)]" "-1"]
  by (simp add: fresh_empty NO_ATERM_def ESCAPE_SEQUENCE_def)

end
